theory Spec2Isabelle
  imports Complex_Main "HOL-Library.Word" "HOL-Library.Signed_Division"
begin

unbundle bit_operations_syntax

section \<open>rx888\_stream: machine integers and the sample buffer\<close>

text \<open>
  The program is one C file, \<^verbatim>\<open>rx888_stream.c\<close>. Bytes are \<open>8 word\<close>, the
  \<^verbatim>\<open>uint16_t\<close> samples \<open>16 word\<close>, \<^verbatim>\<open>unsigned int\<close> and \<^verbatim>\<open>uint32_t\<close> are \<open>32 word\<close>. A C \<^verbatim>\<open>int\<close> is
  an \<open>int\<close> on which every assignment that can leave the 32-bit range wraps through
  \<open>wrap_int\<close>.
\<close>

type_synonym byte = "8 word"
type_synonym u16 = "16 word"
type_synonym u32 = "32 word"

definition wrap_int :: "int \<Rightarrow> int" where
  "wrap_int k = signed_take_bit 31 k"

subsection \<open>The transfer buffer seen as 16-bit samples\<close>

text \<open>
  \<^verbatim>\<open>uint16_t *samples = (uint16_t *)transfer->buffer;\<close> on a little-endian host:
  sample \<open>i\<close> is made of byte \<open>2 i\<close> (low half) and byte \<open>2 i + 1\<close> (high half).
\<close>

definition load_sample :: "byte list \<Rightarrow> nat \<Rightarrow> u16" where
  "load_sample buf i = push_bit 8 (ucast (buf ! (2 * i + 1))) OR ucast (buf ! (2 * i))"

definition store_sample :: "byte list \<Rightarrow> nat \<Rightarrow> u16 \<Rightarrow> byte list" where
  "store_sample buf i v = buf[2 * i := ucast v, 2 * i + 1 := ucast (drop_bit 8 v)]"

text \<open>
  The right-hand side of \<^verbatim>\<open>samples[i] ^= 0xfffe * (samples[i] & 1);\<close>. The sample is
  promoted to a 32-bit \<^verbatim>\<open>int\<close>, the product and the exclusive or are computed there,
  and the assignment truncates back to 16 bits.
\<close>

definition unrandomize :: "u16 \<Rightarrow> u16" where
  "unrandomize s = ucast ((ucast s :: u32) XOR (0xfffe * ((ucast s :: u32) AND 1)))"

text \<open>
  \<^verbatim>\<open>for (int i = 0; i < size / 2; i++) samples[i] ^= ...\<close>, entered at index \<open>i\<close>.
  \<open>sz\<close> is the C \<^verbatim>\<open>int size\<close> copied from \<^verbatim>\<open>transfer->actual_length\<close>; \<^verbatim>\<open>/\<close> truncates
  towards zero (\<open>sdiv\<close>).
\<close>

function randomizer_loop :: "nat \<Rightarrow> int \<Rightarrow> byte list \<Rightarrow> byte list" where
  "randomizer_loop i sz buf =
     (if int i < sz sdiv 2
      then randomizer_loop (Suc i) sz (store_sample buf i (unrandomize (load_sample buf i)))
      else buf)"
  by pat_completeness auto
termination
  by (relation "measure (\<lambda>(i, sz, buf). nat (sz sdiv 2) - i)") auto

declare randomizer_loop.simps [simp del]

section \<open>Program state\<close>

datatype libusb_transfer_status =
    LIBUSB_TRANSFER_COMPLETED
  | LIBUSB_TRANSFER_ERROR
  | LIBUSB_TRANSFER_TIMED_OUT
  | LIBUSB_TRANSFER_CANCELLED
  | LIBUSB_TRANSFER_STALL
  | LIBUSB_TRANSFER_NO_DEVICE
  | LIBUSB_TRANSFER_OVERFLOW

text \<open>
  The fields of \<^verbatim>\<open>struct libusb_transfer\<close> the program reads. \<open>slot\<close> is the index \<open>i\<close> of
  the descriptor in \<^verbatim>\<open>transfers[i]\<close>; \<open>buffer\<close> is \<^verbatim>\<open>databuffers[i]\<close> as the hardware
  left it.
\<close>

record libusb_transfer =
  slot :: nat
  status :: libusb_transfer_status
  actual_length :: int
  buffer :: "byte list"

text \<open>The vendor opcodes of \<^verbatim>\<open>ezusb.h\<close>; only their names are used.\<close>

datatype opcode = GPIOFX3 | DAT31_ATT | AD8340_VGA | STARTADC | STARTFX3 | TUNERSTDBY | STOPFX3

text \<open>Calls that leave the process, in the order they are made.\<close>

datatype call =
    Submit_transfer nat
  | Handle_events
  | Command_send opcode u32
  | Argument_send opcode u32
  | Usleep nat

text \<open>One constructor for each \<^verbatim>\<open>fprintf(stderr, ...)\<close> of the modelled code.\<close>

datatype message =
    Transfer_callback_status libusb_transfer_status int
  | Error_writing_to_stdout
  | Abort_stopping_transfers
  | Invalid_samplerate u32
  | Invalid_gain_mode string
  | Invalid_gain_value int
  | Invalid_attenuation_value u32
  | Invalid_queue_depth u32
  | Invalid_request_size u32
  | Help
  | Test_complete
  | Transfers_pending int
  | Transfers_completed

text \<open>
  The file-scope variables, the locals of \<^verbatim>\<open>main\<close> that option parsing sets, and the
  world outside the process: \<open>in_flight\<close> is the set of slots libusb holds as submitted,
  \<open>stdout\<close> the bytes the sink has accepted, \<open>stderr\<close> the diagnostics, \<open>calls\<close> the
  calls made so far.
\<close>

record state =
  queuedepth :: u32
  reqsize :: u32
  firmware :: "string option"
  success_count :: u32
  failure_count :: u32
  stop_transfers :: bool
  xfers_in_progress :: int
  verbose :: int
  randomizer :: int
  dither :: int
  has_firmware :: int
  refclock_10M :: int
  xtalFreq :: u32
  samplerate :: u32
  gain :: u32
  att :: u32
  in_flight :: "nat set"
  stdout :: "byte list"
  stderr :: "message list"
  calls :: "call list"

text \<open>The initialisers of the file-scope variables and of the locals of \<^verbatim>\<open>main\<close>.\<close>

definition initial_state :: state where
  "initial_state =
     \<lparr>queuedepth = 16, reqsize = 8, firmware = None, success_count = 0, failure_count = 0,
      stop_transfers = False, xfers_in_progress = 0, verbose = 0, randomizer = 0, dither = 0,
      has_firmware = 0, refclock_10M = 0, xtalFreq = 27000000, samplerate = 32000000,
      gain = 0x80, att = 0, in_flight = {}, stdout = [], stderr = [], calls = []\<rparr>"

definition fprintf_stderr :: "message \<Rightarrow> state \<Rightarrow> state" where
  "fprintf_stderr m s = s\<lparr>stderr := stderr s @ [m]\<rparr>"

definition called :: "call \<Rightarrow> state \<Rightarrow> state" where
  "called c s = s\<lparr>calls := calls s @ [c]\<rparr>"

section \<open>The environment: libusb, the sink and signals\<close>

text \<open>
  \<^verbatim>\<open>libusb_submit_transfer(transfers[i])\<close>. \<open>r\<close> is what the library is about to answer
  (0 for success, a negative error code otherwise). A descriptor that is still submitted
  is refused with \<^verbatim>\<open>LIBUSB_ERROR_BUSY\<close> (-6); an accepted one joins \<open>in_flight\<close>.
\<close>

definition libusb_submit_transfer :: "nat \<Rightarrow> int \<Rightarrow> state \<Rightarrow> int \<times> state" where
  "libusb_submit_transfer i r s =
     (let s' = called (Submit_transfer i) s in
      if i \<in> in_flight s then (- 6, s')
      else if r = 0 then (0, s'\<lparr>in_flight := insert i (in_flight s)\<rparr>)
      else (r, s'))"

text \<open>\<^verbatim>\<open>sig_stop\<close>, the handler of SIGINT, SIGTERM and SIGPIPE.\<close>

definition sig_stop :: "state \<Rightarrow> state" where
  "sig_stop s = (fprintf_stderr Abort_stopping_transfers s)\<lparr>stop_transfers := True\<rparr>"

text \<open>
  What the sink does with one \<^verbatim>\<open>write(STDOUT_FILENO, buf, count)\<close>: it accepts the first
  \<open>n\<close> bytes (all of them, or fewer: a partial write) and returns their number; or it
  fails and returns -1; or the reader has gone, SIGPIPE is delivered to the caller,
  whose handler \<open>sig_stop\<close> runs, and the call returns -1.
\<close>

datatype write_outcome = Written nat | Write_error | Broken_pipe

fun write_stdout :: "byte list \<Rightarrow> int \<Rightarrow> write_outcome \<Rightarrow> state \<Rightarrow> int \<times> state" where
  "write_stdout buf count (Written n) s =
     (let k = min n (nat count) in (int k, s\<lparr>stdout := stdout s @ take k buf\<rparr>))"
| "write_stdout buf count Write_error s = (- 1, s)"
| "write_stdout buf count Broken_pipe s = (- 1, sig_stop s)"

section \<open>The completion callback\<close>

text \<open>
  \<^verbatim>\<open>transfer_callback\<close> (lines 68 to 97). \<open>w\<close> is the outcome of the write it may make and
  \<open>r\<close> the answer to the submission it may make.
\<close>

definition transfer_callback :: "libusb_transfer \<Rightarrow> write_outcome \<Rightarrow> int \<Rightarrow> state \<Rightarrow> state" where
  "transfer_callback transfer w r s0 =
     (let s1 = s0\<lparr>xfers_in_progress := wrap_int (xfers_in_progress s0 - 1)\<rparr>;
          s2 =
            (if status transfer \<noteq> LIBUSB_TRANSFER_COMPLETED then
               fprintf_stderr (Transfer_callback_status (status transfer) (actual_length transfer))
                 (s1\<lparr>failure_count := failure_count s1 + 1\<rparr>)
             else
               (let sz = actual_length transfer;
                    s1' = s1\<lparr>success_count := success_count s1 + 1\<rparr>;
                    samples =
                      (if randomizer s1' \<noteq> 0 then randomizer_loop 0 sz (buffer transfer)
                       else buffer transfer);
                    (ret, s1'') = write_stdout samples (actual_length transfer) w s1'
                in if ret < 0 then fprintf_stderr Error_writing_to_stdout s1'' else s1''))
      in if \<not> stop_transfers s2 then
           (let (rc, s3) = libusb_submit_transfer (slot transfer) r s2
            in if rc = 0 then s3\<lparr>xfers_in_progress := wrap_int (xfers_in_progress s3 + 1)\<rparr>
               else s3)
         else s2)"

text \<open>
  The two halves of the callback, named for the proofs: what it does with the completed
  transfer (lines 74 to 92) and the resubmission (lines 93 to 96).
\<close>

definition completion_branch :: "libusb_transfer \<Rightarrow> write_outcome \<Rightarrow> state \<Rightarrow> state" where
  "completion_branch transfer w s1 =
     (if status transfer \<noteq> LIBUSB_TRANSFER_COMPLETED then
        fprintf_stderr (Transfer_callback_status (status transfer) (actual_length transfer))
          (s1\<lparr>failure_count := failure_count s1 + 1\<rparr>)
      else
        (let sz = actual_length transfer;
             s1' = s1\<lparr>success_count := success_count s1 + 1\<rparr>;
             samples =
               (if randomizer s1' \<noteq> 0 then randomizer_loop 0 sz (buffer transfer)
                else buffer transfer);
             (ret, s1'') = write_stdout samples (actual_length transfer) w s1'
         in if ret < 0 then fprintf_stderr Error_writing_to_stdout s1'' else s1''))"

definition resubmit_branch :: "libusb_transfer \<Rightarrow> int \<Rightarrow> state \<Rightarrow> state" where
  "resubmit_branch transfer r s2 =
     (if \<not> stop_transfers s2 then
        (let (rc, s3) = libusb_submit_transfer (slot transfer) r s2
         in if rc = 0 then s3\<lparr>xfers_in_progress := wrap_int (xfers_in_progress s3 + 1)\<rparr>
            else s3)
      else s2)"

text \<open>
  What one call of \<^verbatim>\<open>libusb_handle_events\<close> delivers, in order: completions of
  transfers, each with the outcomes its callback will meet, and termination signals
  arriving between callbacks. The library completes only a transfer it holds; the
  transfer leaves \<open>in_flight\<close> before its callback runs.
\<close>

datatype event = Completion libusb_transfer write_outcome int | Signal

fun deliver :: "event \<Rightarrow> state \<Rightarrow> state" where
  "deliver (Completion transfer w r) s =
     (if slot transfer \<in> in_flight s
      then transfer_callback transfer w r (s\<lparr>in_flight := in_flight s - {slot transfer}\<rparr>)
      else s)"
| "deliver Signal s = sig_stop s"

definition libusb_handle_events :: "event list \<Rightarrow> state \<Rightarrow> state" where
  "libusb_handle_events evs s = fold deliver evs (called Handle_events s)"

section \<open>The streaming part of main\<close>

text \<open>The body of the submission loop (lines 469 to 474) for slot \<open>i\<close>.\<close>

definition submit_slot :: "nat \<Rightarrow> int \<Rightarrow> state \<Rightarrow> state" where
  "submit_slot i r s =
     (let (rStatus, s') = libusb_submit_transfer i r s
      in if rStatus = 0 then s'\<lparr>xfers_in_progress := wrap_int (xfers_in_progress s' + 1)\<rparr>
         else s')"

text \<open>
  \<^verbatim>\<open>for (unsigned int i = 0; i < queuedepth; i++)\<close> (line 468), entered at \<open>i\<close>; \<open>rs i\<close> is the
  library's answer for slot \<open>i\<close>.
\<close>

function submit_loop :: "nat \<Rightarrow> (nat \<Rightarrow> int) \<Rightarrow> state \<Rightarrow> state" where
  "submit_loop i rs s =
     (if i < unat (queuedepth s) then submit_loop (Suc i) rs (submit_slot i (rs i) s) else s)"
  by pat_completeness auto

termination
  by (relation "measure (\<lambda>(i, rs, s). unat (queuedepth s) - i)")
    (auto simp: submit_slot_def libusb_submit_transfer_def called_def Let_def)

declare submit_loop.simps [simp del]

text \<open>
  \<^verbatim>\<open>command_send\<close> and \<^verbatim>\<open>argument_send\<close> are declared in \<^verbatim>\<open>ezusb.h\<close>; each is recorded as
  a call with its opcode and argument.
\<close>

definition command_send :: "opcode \<Rightarrow> u32 \<Rightarrow> state \<Rightarrow> state" where
  "command_send op arg s = called (Command_send op arg) s"

definition argument_send :: "opcode \<Rightarrow> u32 \<Rightarrow> state \<Rightarrow> state" where
  "argument_send op arg s = called (Argument_send op arg) s"

definition usleep :: "nat \<Rightarrow> state \<Rightarrow> state" where
  "usleep n s = called (Usleep n) s"

text \<open>
  Lines 478 to 497, the configuration command sequence. \<open>DITH\<close> and \<open>RANDO\<close> are the GPIO
  bit masks of \<^verbatim>\<open>ezusb.h\<close>.
\<close>

definition configure :: "u32 \<Rightarrow> u32 \<Rightarrow> state \<Rightarrow> state" where
  "configure DITH RANDO s =
     (let gpio = (0 :: u32);
          gpio = (if dither s \<noteq> 0 then gpio OR DITH else gpio);
          gpio = (if randomizer s \<noteq> 0 then gpio OR RANDO else gpio);
          s = command_send GPIOFX3 gpio (usleep 5000 s);
          s = argument_send DAT31_ATT (att s) (usleep 5000 s);
          s = argument_send AD8340_VGA (gain s) (usleep 5000 s);
          s = command_send STARTADC (samplerate s) (usleep 5000 s);
          s = command_send STARTFX3 0 (usleep 5000 s)
      in command_send TUNERSTDBY 0 (usleep 5000 s))"

text \<open>
  \<^verbatim>\<open>do { libusb_handle_events(NULL); } while (stop_transfers != true);\<close>. The list holds
  what each coming call of \<^verbatim>\<open>libusb_handle_events\<close> delivers; the loop returns the part
  it has not consumed. \<open>None\<close>: the loop is still running when the list is used up.
\<close>

fun main_loop :: "event list list \<Rightarrow> state \<Rightarrow> (event list list \<times> state) option" where
  "main_loop [] s = None"
| "main_loop (evs # rest) s =
     (let s' = libusb_handle_events evs s
      in if stop_transfers s' \<noteq> True then main_loop rest s' else Some (rest, s'))"

text \<open>
  \<^verbatim>\<open>while (xfers_in_progress != 0) { fprintf(...); libusb_handle_events(NULL); usleep(100000); }\<close>
\<close>

fun drain_loop :: "event list list \<Rightarrow> state \<Rightarrow> (event list list \<times> state) option" where
  "drain_loop [] s = (if xfers_in_progress s \<noteq> 0 then None else Some ([], s))"
| "drain_loop (evs # rest) s =
     (if xfers_in_progress s \<noteq> 0
      then drain_loop rest
             (usleep 100000
               (libusb_handle_events evs (fprintf_stderr (Transfers_pending (xfers_in_progress s)) s)))
      else Some (evs # rest, s))"

text \<open>Lines 500 to 515: main loop, drain, stop command.\<close>

definition shutdown :: "event list list \<Rightarrow> state \<Rightarrow> (event list list \<times> state) option" where
  "shutdown batches s =
     (case drain_loop batches ((fprintf_stderr Test_complete s)\<lparr>stop_transfers := True\<rparr>) of
        None \<Rightarrow> None
      | Some (rest, s') \<Rightarrow>
          Some (rest, command_send STOPFX3 0 (fprintf_stderr Transfers_completed s')))"

text \<open>Lines 468 to 515: from the first submission to the stop command.\<close>

definition stream :: "u32 \<Rightarrow> u32 \<Rightarrow> (nat \<Rightarrow> int) \<Rightarrow> event list list \<Rightarrow> state
    \<Rightarrow> (event list list \<times> state) option" where
  "stream DITH RANDO rs batches s =
     (case main_loop batches (configure DITH RANDO (submit_loop 0 rs s)) of
        None \<Rightarrow> None
      | Some (rest, s') \<Rightarrow> shutdown rest s')"

text \<open>
  The atomic steps that change the transfer bookkeeping, for stating the invariant over
  every interleaving: the body of the submission loop for one slot, one delivered
  event, and line 506 (\<^verbatim>\<open>stop_transfers = true\<close> with its message).
\<close>

datatype action = Initial_submit nat int | Deliver event | Stop_requested | Made call | Said message

fun act :: "action \<Rightarrow> state \<Rightarrow> state" where
  "act (Initial_submit i r) s = (if i < unat (queuedepth s) then submit_slot i r s else s)"
| "act (Deliver e) s = deliver e s"
| "act Stop_requested s = s\<lparr>stop_transfers := True\<rparr>"
| "act (Made c) s = called c s"
| "act (Said m) s = fprintf_stderr m s"

definition run :: "action list \<Rightarrow> state \<Rightarrow> state" where
  "run acts s = fold act acts s"

text \<open>How many times the stop command has been sent.\<close>

fun is_stop_command :: "call \<Rightarrow> bool" where
  "is_stop_command (Command_send op arg) = (op = STOPFX3)"
| "is_stop_command c = False"

definition stop_commands :: "state \<Rightarrow> nat" where
  "stop_commands s = length (filter is_stop_command (calls s))"

text \<open>Steps that send no stop command.\<close>

fun quiet :: "action \<Rightarrow> bool" where
  "quiet (Made c) = (\<not> is_stop_command c)"
| "quiet a = True"

text \<open>
  The bookkeeping invariant: the counter is the number of slots libusb holds, and these
  are slots of the pool.
\<close>

definition pool_invariant :: "state \<Rightarrow> bool" where
  "pool_invariant s =
     (xfers_in_progress s = int (card (in_flight s)) \<and>
      in_flight s \<subseteq> {..<unat (queuedepth s)})"

text \<open>
  What the environment is going to deliver: the slots for which the coming calls of
  \<^verbatim>\<open>libusb_handle_events\<close> bring a completion. The loops do not compute this; it states
  what is assumed of libusb when a loop is shown to end.
\<close>

fun completes :: "event \<Rightarrow> nat set" where
  "completes (Completion transfer w r) = {slot transfer}"
| "completes Signal = {}"

definition completed_slots :: "event list list \<Rightarrow> nat set" where
  "completed_slots batches = (\<Union>evs \<in> set batches. \<Union>e \<in> set evs. completes e)"

section \<open>The clock estimator\<close>

text \<open>
  \<^verbatim>\<open>actual_freq\<close> (lines 152 to 193) computes in \<^verbatim>\<open>double\<close>. The model computes in \<open>real\<close>:
  a \<^verbatim>\<open>double\<close> operation is taken as the exact operation, and rounding to 53 bits is left
  out. For the whole-number rates \<^verbatim>\<open>main\<close> passes (\<^verbatim>\<open>(double)samplerate\<close>) every quantity
  up to \<open>num\<close> is a quotient or product of integers below \<open>2^53\<close> and is rounded
  nowhere near an integer boundary, so only the two frequencies returned at the end differ
  from the \<^verbatim>\<open>double\<close> ones, in their last bits. A conversion \<^verbatim>\<open>(uint32_t)x\<close> truncates; its
  operand is never negative here.
\<close>

definition double_to_uint32 :: "real \<Rightarrow> u32" where
  "double_to_uint32 x = word_of_int \<lfloor>x\<rfloor>"

definition uint32_to_double :: "u32 \<Rightarrow> real" where
  "uint32_to_double w = real (unat w)"

text \<open>The result of a \<^verbatim>\<open>double\<close> division, whose divisor may be zero.\<close>

datatype c_double = Finite real | Plus_infinity | Minus_infinity | Not_a_number

definition double_div :: "real \<Rightarrow> real \<Rightarrow> c_double" where
  "double_div x y =
     (if y \<noteq> 0 then Finite (x / y)
      else if x = 0 then Not_a_number
      else if 0 < x then Plus_infinity else Minus_infinity)"

text \<open>\<^verbatim>\<open>while (frequency < 1000000) frequency = frequency * 2;\<close> It does not return for \<open>frequency \<le> 0\<close>.\<close>

partial_function (option) frequency_loop :: "real \<Rightarrow> real option" where
  "frequency_loop frequency =
     (if frequency < 1000000 then frequency_loop (frequency * 2) else Some frequency)"

text \<open>
  The values the function computes after the loop. It prints \<open>pllFreq\<close>, \<open>mult\<close>, \<open>num\<close>,
  \<open>denom\<close>, \<open>actualPllFreq\<close> and \<open>divider\<close>, and returns \<open>actualAdcFreq\<close>.
\<close>

record clock_plan =
  normalized :: real
  divider :: u32
  pllFreq :: u32
  mult :: byte
  remainder_l :: u32
  num :: u32
  denom :: u32
  actualPllFreq :: real
  actualAdcFreq :: c_double

definition clock_plan_of :: "u32 \<Rightarrow> real \<Rightarrow> clock_plan" where
  "clock_plan_of xtal frequency =
     (let divider0 = double_to_uint32 (900000000 / frequency);
          divider1 = (if divider0 mod 2 \<noteq> 0 then divider0 - 1 else divider0);
          pllFreq1 = double_to_uint32 (uint32_to_double divider1 * frequency);
          mult1 = (ucast (pllFreq1 div xtal) :: byte);
          l = pllFreq1 mod xtal;
          f = uint32_to_double l * 1048575 / uint32_to_double xtal;
          num1 = double_to_uint32 f;
          denom1 = (1048575 :: u32);
          actualPllFreq1 =
            uint32_to_double xtal *
              (real (unat mult1) + uint32_to_double num1 / uint32_to_double denom1)
      in \<lparr>normalized = frequency, divider = divider1, pllFreq = pllFreq1, mult = mult1,
          remainder_l = l, num = num1, denom = denom1, actualPllFreq = actualPllFreq1,
          actualAdcFreq = double_div actualPllFreq1 (uint32_to_double divider1)\<rparr>)"

definition actual_freq :: "u32 \<Rightarrow> real \<Rightarrow> clock_plan option" where
  "actual_freq xtal frequency = map_option (clock_plan_of xtal) (frequency_loop frequency)"

section \<open>Option parsing\<close>

text \<open>
  \<^verbatim>\<open>long_options\<close> (lines 203 to 216): the variable \<open>flag\<close> points to, if any, and \<open>val\<close>.
\<close>

datatype flag_variable = Flag_verbose | Flag_has_firmware | Flag_dither | Flag_randomizer | Flag_refclock_10M

record long_option =
  name :: string
  flag :: "flag_variable option"
  val :: int

definition long_options :: "long_option list" where
  "long_options =
     [\<lparr>name = ''verbose'', flag = Some Flag_verbose, val = 1\<rparr>,
      \<lparr>name = ''firmware'', flag = Some Flag_has_firmware, val = of_char CHR ''f''\<rparr>,
      \<lparr>name = ''dither'', flag = Some Flag_dither, val = of_char CHR ''d''\<rparr>,
      \<lparr>name = ''rand'', flag = Some Flag_randomizer, val = of_char CHR ''r''\<rparr>,
      \<lparr>name = ''samplerate'', flag = None, val = of_char CHR ''s''\<rparr>,
      \<lparr>name = ''gainmode'', flag = None, val = of_char CHR ''m''\<rparr>,
      \<lparr>name = ''gain'', flag = None, val = of_char CHR ''g''\<rparr>,
      \<lparr>name = ''att'', flag = None, val = of_char CHR ''a''\<rparr>,
      \<lparr>name = ''queuedepth'', flag = None, val = of_char CHR ''q''\<rparr>,
      \<lparr>name = ''reqsize'', flag = None, val = of_char CHR ''p''\<rparr>,
      \<lparr>name = ''refclock-10M'', flag = Some Flag_refclock_10M, val = of_char CHR ''T''\<rparr>,
      \<lparr>name = ''help'', flag = None, val = of_char CHR ''h''\<rparr>]"

fun store_flag :: "flag_variable \<Rightarrow> int \<Rightarrow> state \<Rightarrow> state" where
  "store_flag Flag_verbose v s = s\<lparr>verbose := v\<rparr>"
| "store_flag Flag_has_firmware v s = s\<lparr>has_firmware := v\<rparr>"
| "store_flag Flag_dither v s = s\<lparr>dither := v\<rparr>"
| "store_flag Flag_randomizer v s = s\<lparr>randomizer := v\<rparr>"
| "store_flag Flag_refclock_10M v s = s\<lparr>refclock_10M := v\<rparr>"

text \<open>
  One answer of \<^verbatim>\<open>getopt_long\<close> before the final -1: the value returned (a character
  code, or 0 for a long option), \<^verbatim>\<open>option_index\<close> and \<^verbatim>\<open>optarg\<close> (\<open>None\<close> for \<^verbatim>\<open>NULL\<close>).
  For a long option whose \<open>flag\<close> is set the library stores \<open>val\<close> through \<open>flag\<close> and
  returns 0; for any other option it returns the option character.
\<close>

record getopt_answer =
  returned :: int
  option_index :: nat
  optarg :: "string option"

definition getopt_long :: "getopt_answer \<Rightarrow> state \<Rightarrow> state" where
  "getopt_long g s =
     (if returned g = 0 \<and> option_index g < length long_options then
        (case flag (long_options ! option_index g) of
           Some v \<Rightarrow> store_flag v (val (long_options ! option_index g)) s
         | None \<Rightarrow> s)
      else s)"

text \<open>
  How one pass through the body of \<^verbatim>\<open>while (1)\<close> ends: at the bottom of the body, by a
  \<^verbatim>\<open>break\<close> that leaves the loop, by \<^verbatim>\<open>return\<close> from \<^verbatim>\<open>main\<close>, or in a read through a null
  \<^verbatim>\<open>optarg\<close>.
\<close>

datatype pass = Next_option state | Loop_left state | Returned int state | Null_optarg

text \<open>
  The \<^verbatim>\<open>switch (c)\<close> of lines 232 to 319. \<open>strtol\<close> and \<open>strtoul\<close> are the C library's; the
  value each returns is a \<^verbatim>\<open>long\<close> (\<^verbatim>\<open>unsigned long\<close>), here an \<open>int\<close>, and the assignment
  to a 32-bit variable keeps its low 32 bits.
\<close>

definition invalid :: "message \<Rightarrow> state \<Rightarrow> pass" where
  "invalid m s = Returned 0 (fprintf_stderr Help (fprintf_stderr m s))"

definition option_switch :: "(string \<Rightarrow> int) \<Rightarrow> (string \<Rightarrow> int) \<Rightarrow> int \<Rightarrow> string option \<Rightarrow> state \<Rightarrow> pass" where
  "option_switch strtol strtoul c arg s =
     (if c = of_char CHR ''f'' then Next_option (s\<lparr>firmware := arg\<rparr>)
      else if c = of_char CHR ''r'' then Next_option (s\<lparr>randomizer := 1\<rparr>)
      else if c = of_char CHR ''d'' then Next_option (s\<lparr>dither := 1\<rparr>)
      else if c = of_char CHR ''v'' then
        (case arg of
           Some a \<Rightarrow> Next_option (s\<lparr>verbose := wrap_int (strtoul a)\<rparr>)
         | None \<Rightarrow> Next_option (s\<lparr>verbose := 1\<rparr>))
      else if c = of_char CHR ''s'' then
        (case arg of
           None \<Rightarrow> Null_optarg
         | Some a \<Rightarrow>
             (let s = s\<lparr>samplerate := word_of_int (strtoul a)\<rparr>
              in if samplerate s < 1000000 then invalid (Invalid_samplerate (samplerate s)) s
                 else Next_option s))
      else if c = of_char CHR ''m'' then
        (case arg of
           None \<Rightarrow> Null_optarg
         | Some a \<Rightarrow>
             if a = ''high'' then Next_option (s\<lparr>gain := gain s OR 0x80\<rparr>)
             else if a = ''low'' then Next_option (s\<lparr>gain := gain s AND NOT 0x80\<rparr>)
             else invalid (Invalid_gain_mode a) s)
      else if c = of_char CHR ''g'' then
        (case arg of
           None \<Rightarrow> Null_optarg
         | Some a \<Rightarrow>
             (let gainvalue = wrap_int (strtol a)
              in if gainvalue < 0 \<or> gainvalue > 127 then invalid (Invalid_gain_value gainvalue) s
                 else Next_option (s\<lparr>gain := (gain s AND NOT 0x7f) OR word_of_int gainvalue\<rparr>)))
      else if c = of_char CHR ''a'' then
        (case arg of
           None \<Rightarrow> Null_optarg
         | Some a \<Rightarrow>
             (let s = s\<lparr>att := word_of_int (strtol a)\<rparr>
              in if att s < 0 \<or> att s > 63 then invalid (Invalid_attenuation_value (att s)) s
                 else Next_option s))
      else if c = of_char CHR ''q'' then
        (case arg of
           None \<Rightarrow> Null_optarg
         | Some a \<Rightarrow>
             (let s = s\<lparr>queuedepth := word_of_int (strtol a)\<rparr>
              in if queuedepth s < 1 \<or> queuedepth s > 64
                 then invalid (Invalid_queue_depth (queuedepth s)) s
                 else Next_option s))
      else if c = of_char CHR ''p'' then
        (case arg of
           None \<Rightarrow> Null_optarg
         | Some a \<Rightarrow>
             (let s = s\<lparr>reqsize := word_of_int (strtol a)\<rparr>
              in if reqsize s < 1 \<or> reqsize s > 64
                 then invalid (Invalid_request_size (reqsize s)) s
                 else Next_option s))
      else if c = of_char CHR ''T'' then Next_option (s\<lparr>xtalFreq := 10000000\<rparr>)
      else Returned 0 (fprintf_stderr Help s))"

text \<open>Lines 221 to 319: one pass, given the answer of \<^verbatim>\<open>getopt_long\<close>.\<close>

definition option_pass :: "(string \<Rightarrow> int) \<Rightarrow> (string \<Rightarrow> int) \<Rightarrow> getopt_answer \<Rightarrow> state \<Rightarrow> pass" where
  "option_pass strtol strtoul g s0 =
     (let s = getopt_long g s0;
          c = returned g
      in if c = - 1 then Loop_left s
         else if c = 0 then
           (if option_index g < length long_options then
              (if flag (long_options ! option_index g) \<noteq> None then Loop_left s
               else option_switch strtol strtoul (val (long_options ! option_index g)) (optarg g) s)
            else option_switch strtol strtoul c (optarg g) s)
         else option_switch strtol strtoul c (optarg g) s)"

text \<open>
  The loop \<^verbatim>\<open>while (1)\<close> over the answers of \<^verbatim>\<open>getopt_long\<close>; after the last one the
  library answers -1 and the loop is left.
\<close>

fun option_loop :: "(string \<Rightarrow> int) \<Rightarrow> (string \<Rightarrow> int) \<Rightarrow> getopt_answer list \<Rightarrow> state \<Rightarrow> pass" where
  "option_loop strtol strtoul [] s = Loop_left s"
| "option_loop strtol strtoul (g # gs) s =
     (case option_pass strtol strtoul g s of
        Next_option s' \<Rightarrow> option_loop strtol strtoul gs s'
      | p \<Rightarrow> p)"

section \<open>The sample transform\<close>

subsection \<open>One sample\<close>

lemma odd_ucast_sample: "odd (ucast (s :: u16) :: u32) = odd s"
proof -
  have "bit (ucast s :: u32) 0 = bit s 0"
    by (simp only: bit_ucast_iff) simp
  then show ?thesis by (simp only: bit_0)
qed

lemma xor_fffe_twice: "((s :: u16) XOR 0xfffe) XOR 0xfffe = s"
  by (simp add: xor.assoc)

lemma odd_xor_fffe: "odd ((s :: u16) XOR 0xfffe) = odd s"
  by (simp add: even_xor_iff)

lemma unrandomize_eq: "unrandomize s = (if bit s 0 then s XOR 0xfffe else s)"
proof (cases "odd s")
  case True
  then have "(ucast s :: u32) AND 1 = 1"
    by (simp add: and_one_eq mod_2_eq_odd odd_ucast_sample)
  then have "unrandomize s = ucast ((ucast s :: u32) XOR 0xfffe)"
    by (simp add: unrandomize_def)
  also have "\<dots> = s XOR 0xfffe"
    by (rule bit_word_eqI) (auto simp: bit_simps)
  finally show ?thesis using True by (simp add: bit_0)
next
  case False
  then have "(ucast s :: u32) AND 1 = 0"
    by (simp add: and_one_eq mod_2_eq_odd odd_ucast_sample)
  moreover have "ucast (ucast s :: u32) = s"
    by (rule bit_word_eqI) (auto simp: bit_simps)
  ultimately show ?thesis using False
    by (simp add: unrandomize_def bit_0)
qed

lemma bit0_unrandomize: "bit (unrandomize s) 0 = bit s 0"
  by (simp add: unrandomize_eq bit_0 odd_xor_fffe)

lemma unrandomize_involution: "unrandomize (unrandomize s) = s"
  using bit0_unrandomize[of s]
  by (simp add: unrandomize_eq[of "unrandomize s"]) (simp add: unrandomize_eq xor_fffe_twice)

subsection \<open>Samples and bytes of a buffer\<close>

lemma length_store_sample: "length (store_sample buf i v) = length buf"
  by (simp add: store_sample_def)

lemma load_store_same:
  "2 * i + 1 < length buf \<Longrightarrow> load_sample (store_sample buf i v) i = v"
  unfolding load_sample_def store_sample_def
  by (simp, intro bit_word_eqI) (auto simp: bit_simps)

lemma load_store_other: "i \<noteq> j \<Longrightarrow> load_sample (store_sample buf i v) j = load_sample buf j"
  unfolding load_sample_def store_sample_def
  by simp

lemma nth_store_other: "k \<noteq> 2 * i \<Longrightarrow> k \<noteq> 2 * i + 1 \<Longrightarrow> store_sample buf i v ! k = buf ! k"
  by (simp add: store_sample_def)

lemma low_byte_of_sample: "ucast (load_sample buf i) = buf ! (2 * i)"
  unfolding load_sample_def
  by (rule bit_word_eqI) (auto simp: bit_simps)

lemma high_byte_of_sample: "ucast (drop_bit 8 (load_sample buf i)) = buf ! (2 * i + 1)"
  unfolding load_sample_def
  by (rule bit_word_eqI) (auto simp: bit_simps dest: bit_imp_le_length)

subsection \<open>The loop\<close>

text \<open>
  What the loop entered at \<open>i\<close> leaves: samples \<open>i\<close> up to \<open>size / 2\<close> transformed, every other
  sample and every byte outside them as before.
\<close>

lemma randomizer_loop_spec:
  "2 * nat (sz sdiv 2) \<le> length buf \<Longrightarrow>
   length (randomizer_loop i sz buf) = length buf \<and>
   (\<forall>j. load_sample (randomizer_loop i sz buf) j =
      (if i \<le> j \<and> int j < sz sdiv 2 then unrandomize (load_sample buf j) else load_sample buf j)) \<and>
   (\<forall>k. k < 2 * i \<or> 2 * nat (sz sdiv 2) \<le> k \<longrightarrow> randomizer_loop i sz buf ! k = buf ! k)"
proof (induction i sz buf rule: randomizer_loop.induct)
  case (1 i sz buf)
  show ?case
  proof (cases "int i < sz sdiv 2")
    case False
    then show ?thesis by (auto simp add: randomizer_loop.simps[of i sz buf])
  next
    case True
    let ?b = "store_sample buf i (unrandomize (load_sample buf i))"
    have len: "length ?b = length buf" by (simp add: length_store_sample)
    have inr: "2 * i + 1 < length buf" using True "1.prems" by linarith
    have ih: "length (randomizer_loop (Suc i) sz ?b) = length ?b \<and>
      (\<forall>j. load_sample (randomizer_loop (Suc i) sz ?b) j =
         (if Suc i \<le> j \<and> int j < sz sdiv 2 then unrandomize (load_sample ?b j) else load_sample ?b j)) \<and>
      (\<forall>k. k < 2 * Suc i \<or> 2 * nat (sz sdiv 2) \<le> k \<longrightarrow> randomizer_loop (Suc i) sz ?b ! k = ?b ! k)"
      using "1.IH"[OF True] "1.prems" len by simp
    have unf: "randomizer_loop i sz buf = randomizer_loop (Suc i) sz ?b"
      using True by (simp add: randomizer_loop.simps[of i sz buf])
    have a: "length (randomizer_loop i sz buf) = length buf"
      using ih len unf by simp
    have b: "load_sample (randomizer_loop i sz buf) j =
      (if i \<le> j \<and> int j < sz sdiv 2 then unrandomize (load_sample buf j) else load_sample buf j)" for j
    proof (cases "j = i")
      case True
      then show ?thesis using ih unf inr \<open>int i < sz sdiv 2\<close>
        by (simp add: load_store_same)
    next
      case False
      then have "load_sample ?b j = load_sample buf j"
        by (simp add: load_store_other)
      then show ?thesis using ih unf False by auto
    qed
    have c: "randomizer_loop i sz buf ! k = buf ! k" if "k < 2 * i \<or> 2 * nat (sz sdiv 2) \<le> k" for k
    proof -
      have "k \<noteq> 2 * i" "k \<noteq> 2 * i + 1" using that True by linarith+
      then have "?b ! k = buf ! k" by (simp add: nth_store_other)
      moreover have "randomizer_loop (Suc i) sz ?b ! k = ?b ! k"
        using ih that by auto
      ultimately show ?thesis using unf by simp
    qed
    show ?thesis using a b c by blast
  qed
qed



lemma sdiv2_nonneg: "0 \<le> k \<Longrightarrow> k sdiv 2 = k div (2 :: int)"
  by (simp add: signed_divide_int_def sgn_if)

lemma randomizer_loop_twice:
  assumes "2 * nat (sz sdiv 2) \<le> length buf"
  shows "randomizer_loop 0 sz (randomizer_loop 0 sz buf) = buf"
proof (rule nth_equalityI)
  let ?b1 = "randomizer_loop 0 sz buf"
  let ?b2 = "randomizer_loop 0 sz ?b1"
  note s1 = randomizer_loop_spec[OF assms, of 0]
  have len1: "length ?b1 = length buf" using s1 by simp
  have "2 * nat (sz sdiv 2) \<le> length ?b1" using assms len1 by simp
  note s2 = randomizer_loop_spec[OF this, of 0]
  show "length ?b2 = length buf" using s2 len1 by simp
  fix k assume "k < length ?b2"
  show "?b2 ! k = buf ! k"
  proof (cases "2 * nat (sz sdiv 2) \<le> k")
    case True
    then show ?thesis using s1 s2 by simp
  next
    case False
    define j where "j = k div 2"
    have j: "int j < sz sdiv 2" using False by (simp add: j_def)
    have "load_sample ?b2 j = unrandomize (load_sample ?b1 j)" using s2 j by simp
    also have "\<dots> = unrandomize (unrandomize (load_sample buf j))" using s1 j by simp
    finally have eq: "load_sample ?b2 j = load_sample buf j"
      by (simp add: unrandomize_involution)
    have "k = 2 * j \<or> k = 2 * j + 1" by (simp add: j_def) presburger
    then show ?thesis
    proof
      assume "k = 2 * j"
      then show ?thesis
        using eq low_byte_of_sample[of ?b2 j] low_byte_of_sample[of buf j] by simp
    next
      assume "k = 2 * j + 1"
      then show ?thesis
        using eq high_byte_of_sample[of ?b2 j] high_byte_of_sample[of buf j] by simp
    qed
  qed
qed

text \<open>
  \<^bold>\<open>C1.\<close> The transform is an involution: on a buffer of even length, taken whole
  (\<open>size\<close> is its length), running the loop twice gives back the buffer byte for byte.
\<close>

theorem unwhitening_involution:
  assumes "even (length buf)"
  shows "randomizer_loop 0 (int (length buf)) (randomizer_loop 0 (int (length buf)) buf) = buf"
proof -
  have "int (length buf) sdiv 2 = int (length buf) div 2"
    by (simp add: sdiv2_nonneg)
  then have "2 * nat (int (length buf) sdiv 2) \<le> length buf"
    by simp
  then show ?thesis by (rule randomizer_loop_twice)
qed

theorem unwhitening_involution_witness:
  "even (length [1, 128, 2, 0 :: byte]) \<and>
   randomizer_loop 0 4 (randomizer_loop 0 4 [1, 128, 2, 0 :: byte]) = [1, 128, 2, 0]"
  using unwhitening_involution[of "[1, 128, 2, 0 :: byte]"] by simp

section \<open>The completion callback: proofs\<close>

subsection \<open>The callback in closed form\<close>

lemma transfer_callback_stages:
  "transfer_callback t w r s =
     resubmit_branch t r
       (completion_branch t w (s\<lparr>xfers_in_progress := wrap_int (xfers_in_progress s - 1)\<rparr>))"
  unfolding transfer_callback_def resubmit_branch_def completion_branch_def Let_def
  by (rule refl)

lemma resubmit_branch_eq:
  "resubmit_branch t r s =
     (if stop_transfers s then s
      else if slot t \<notin> in_flight s \<and> r = 0
      then s\<lparr>calls := calls s @ [Submit_transfer (slot t)],
             in_flight := insert (slot t) (in_flight s),
             xfers_in_progress := wrap_int (xfers_in_progress s + 1)\<rparr>
      else s\<lparr>calls := calls s @ [Submit_transfer (slot t)]\<rparr>)"
  by (simp add: resubmit_branch_def libusb_submit_transfer_def called_def Let_def)

lemma completion_branch_eq:
  "completion_branch t w s =
     (if status t \<noteq> LIBUSB_TRANSFER_COMPLETED then
        s\<lparr>failure_count := failure_count s + 1,
           stderr := stderr s @ [Transfer_callback_status (status t) (actual_length t)]\<rparr>
      else
        (case w of
           Written n \<Rightarrow>
             s\<lparr>success_count := success_count s + 1,
                stdout := stdout s @ take (min n (nat (actual_length t)))
                  (if randomizer s \<noteq> 0 then randomizer_loop 0 (actual_length t) (buffer t)
                   else buffer t)\<rparr>
         | Write_error \<Rightarrow>
             s\<lparr>success_count := success_count s + 1,
                stderr := stderr s @ [Error_writing_to_stdout]\<rparr>
         | Broken_pipe \<Rightarrow>
             s\<lparr>success_count := success_count s + 1,
                stderr := stderr s @ [Abort_stopping_transfers, Error_writing_to_stdout],
                stop_transfers := True\<rparr>))"
  by (cases w) (simp_all add: completion_branch_def fprintf_stderr_def sig_stop_def Let_def)

lemmas callback_eq = transfer_callback_stages resubmit_branch_eq completion_branch_eq

lemma callback_stop:
  "stop_transfers (transfer_callback t w r s) =
     (stop_transfers s \<or> (status t = LIBUSB_TRANSFER_COMPLETED \<and> w = Broken_pipe))"
  by (cases w) (simp_all add: callback_eq)

lemma callback_calls:
  "calls (transfer_callback t w r s) =
     calls s @ (if stop_transfers (transfer_callback t w r s) then [] else [Submit_transfer (slot t)])"
  by (cases w) (simp_all add: callback_eq)

lemma callback_in_flight:
  "in_flight (transfer_callback t w r s) =
     (if \<not> stop_transfers (transfer_callback t w r s) \<and> slot t \<notin> in_flight s \<and> r = 0
      then insert (slot t) (in_flight s) else in_flight s)"
  by (cases w) (simp_all add: callback_eq)

lemma callback_xfers:
  "xfers_in_progress (transfer_callback t w r s) =
     (if \<not> stop_transfers (transfer_callback t w r s) \<and> slot t \<notin> in_flight s \<and> r = 0
      then wrap_int (wrap_int (xfers_in_progress s - 1) + 1)
      else wrap_int (xfers_in_progress s - 1))"
  by (cases w) (simp_all add: callback_eq)

lemma callback_failure_count:
  "failure_count (transfer_callback t w r s) =
     (if status t \<noteq> LIBUSB_TRANSFER_COMPLETED then failure_count s + 1 else failure_count s)"
  by (cases w) (simp_all add: callback_eq)

lemma callback_success_count:
  "success_count (transfer_callback t w r s) =
     (if status t = LIBUSB_TRANSFER_COMPLETED then success_count s + 1 else success_count s)"
  by (cases w) (simp_all add: callback_eq)

lemma callback_stdout:
  "stdout (transfer_callback t w r s) =
     (if status t = LIBUSB_TRANSFER_COMPLETED then
        (case w of
           Written n \<Rightarrow>
             stdout s @ take (min n (nat (actual_length t)))
               (if randomizer s \<noteq> 0 then randomizer_loop 0 (actual_length t) (buffer t) else buffer t)
         | _ \<Rightarrow> stdout s)
      else stdout s)"
  by (cases w) (simp_all add: callback_eq)

lemma callback_stderr:
  "stderr (transfer_callback t w r s) =
     (if status t \<noteq> LIBUSB_TRANSFER_COMPLETED
      then stderr s @ [Transfer_callback_status (status t) (actual_length t)]
      else (case w of
              Written n \<Rightarrow> stderr s
            | Write_error \<Rightarrow> stderr s @ [Error_writing_to_stdout]
            | Broken_pipe \<Rightarrow> stderr s @ [Abort_stopping_transfers, Error_writing_to_stdout]))"
  by (cases w) (simp_all add: callback_eq)

lemma callback_queuedepth: "queuedepth (transfer_callback t w r s) = queuedepth s"
  by (cases w) (simp_all add: callback_eq)

section \<open>The bookkeeping invariant\<close>

lemma wrap_int_id: "- 2147483648 \<le> k \<Longrightarrow> k < 2147483648 \<Longrightarrow> wrap_int k = k"
  by (simp add: wrap_int_def signed_take_bit_int_eq_self)

lemma pool_finite: "pool_invariant s \<Longrightarrow> finite (in_flight s)"
  unfolding pool_invariant_def by (meson finite_lessThan finite_subset)

lemma pool_card_le: "pool_invariant s \<Longrightarrow> card (in_flight s) \<le> unat (queuedepth s)"
proof -
  assume "pool_invariant s"
  then have "card (in_flight s) \<le> card {..<unat (queuedepth s)}"
    unfolding pool_invariant_def by (intro card_mono) simp_all
  then show ?thesis by simp
qed

lemma submit_slot_eq:
  "submit_slot i r s =
     (if i \<notin> in_flight s \<and> r = 0
      then s\<lparr>calls := calls s @ [Submit_transfer i],
             in_flight := insert i (in_flight s),
             xfers_in_progress := wrap_int (xfers_in_progress s + 1)\<rparr>
      else s\<lparr>calls := calls s @ [Submit_transfer i]\<rparr>)"
  by (simp add: submit_slot_def libusb_submit_transfer_def called_def Let_def)

lemma pool_submit_slot:
  assumes "pool_invariant s" and "unat (queuedepth s) < 2 ^ 31" and "i < unat (queuedepth s)"
  shows "pool_invariant (submit_slot i r s)"
proof (cases "i \<notin> in_flight s \<and> r = 0")
  case False
  then show ?thesis using assms(1) by (auto simp: submit_slot_eq pool_invariant_def)
next
  case True
  have fin: "finite (in_flight s)" using assms(1) by (rule pool_finite)
  have "card (insert i (in_flight s)) \<le> card {..<unat (queuedepth s)}"
    using assms(1,3) unfolding pool_invariant_def by (intro card_mono) auto
  then have "Suc (card (in_flight s)) \<le> unat (queuedepth s)"
    using True fin by simp
  moreover have "unat (queuedepth s) < 2147483648" using assms(2) by simp
  moreover have "xfers_in_progress s = int (card (in_flight s))"
    using assms(1) by (simp add: pool_invariant_def)
  ultimately have "wrap_int (xfers_in_progress s + 1) = xfers_in_progress s + 1"
    by (intro wrap_int_id) linarith+
  then show ?thesis
    using True fin assms(1,3) by (auto simp: submit_slot_eq pool_invariant_def)
qed

lemma pool_callback:
  assumes "pool_invariant s" and "unat (queuedepth s) < 2 ^ 31" and "slot t \<in> in_flight s"
  shows "pool_invariant (transfer_callback t w r (s\<lparr>in_flight := in_flight s - {slot t}\<rparr>))"
proof -
  let ?s = "s\<lparr>in_flight := in_flight s - {slot t}\<rparr>"
  let ?s' = "transfer_callback t w r ?s"
  have fin: "finite (in_flight s)" using assms(1) by (rule pool_finite)
  have x: "xfers_in_progress s = int (card (in_flight s))"
    and sub: "in_flight s \<subseteq> {..<unat (queuedepth s)}"
    using assms(1) by (simp_all add: pool_invariant_def)
  have pos: "0 < card (in_flight s)" using assms(3) fin by (auto simp: card_gt_0_iff)
  have le: "card (in_flight s) \<le> unat (queuedepth s)" using assms(1) by (rule pool_card_le)
  have q: "unat (queuedepth s) < 2147483648" using assms(2) by simp
  have w1: "wrap_int (xfers_in_progress s - 1) = xfers_in_progress s - 1"
    using x le q by (intro wrap_int_id) linarith+
  have "wrap_int (xfers_in_progress s) = xfers_in_progress s"
    using x le q by (intro wrap_int_id) linarith+
  then have w2: "wrap_int (xfers_in_progress s - 1 + 1) = xfers_in_progress s"
    by simp
  have c1: "int (card (in_flight s - {slot t})) = xfers_in_progress s - 1"
    using x pos assms(3) fin by (simp add: card_Diff_singleton)
  have ins: "insert (slot t) (in_flight s - {slot t}) = in_flight s"
    using assms(3) by auto
  show ?thesis
    unfolding pool_invariant_def
    using sub x c1 w1 w2 ins
    by (auto simp: callback_xfers callback_in_flight callback_queuedepth)
qed

lemma deliver_queuedepth: "queuedepth (deliver e s) = queuedepth s"
  by (cases e) (simp_all add: callback_queuedepth sig_stop_def fprintf_stderr_def)

lemma pool_deliver:
  assumes "pool_invariant s" and "unat (queuedepth s) < 2 ^ 31"
  shows "pool_invariant (deliver e s)"
proof (cases e)
  case (Completion t w r)
  then show ?thesis using assms pool_callback[of s t w r] by simp
next
  case Signal
  then show ?thesis using assms(1)
    by (simp add: sig_stop_def fprintf_stderr_def pool_invariant_def)
qed

lemma act_queuedepth: "queuedepth (act a s) = queuedepth s"
  by (cases a) (simp_all add: deliver_queuedepth submit_slot_eq called_def fprintf_stderr_def)

lemma pool_act:
  assumes "pool_invariant s" and "unat (queuedepth s) < 2 ^ 31"
  shows "pool_invariant (act a s)"
proof (cases a)
  case (Initial_submit i r)
  then show ?thesis using assms pool_submit_slot[of s i r] by simp
next
  case (Deliver e)
  then show ?thesis using assms pool_deliver[of s e] by simp
next
  case Stop_requested
  then show ?thesis using assms(1) by (simp add: pool_invariant_def)
next
  case (Made c)
  then show ?thesis using assms(1) by (simp add: pool_invariant_def called_def)
next
  case (Said m)
  then show ?thesis using assms(1) by (simp add: pool_invariant_def fprintf_stderr_def)
qed

lemma run_Nil: "run [] s = s"
  by (simp add: run_def)

lemma run_Cons: "run (a # acts) s = run acts (act a s)"
  by (simp add: run_def)

lemma run_append: "run (as @ bs) s = run bs (run as s)"
  by (simp add: run_def)

lemma run_queuedepth: "queuedepth (run acts s) = queuedepth s"
  by (induction acts arbitrary: s) (simp_all add: run_Nil run_Cons act_queuedepth)

lemma pool_run:
  "pool_invariant s \<Longrightarrow> unat (queuedepth s) < 2 ^ 31 \<Longrightarrow> pool_invariant (run acts s)"
proof (induction acts arbitrary: s)
  case Nil
  then show ?case by (simp add: run_Nil)
next
  case (Cons a acts)
  have "pool_invariant (act a s)" using Cons.prems by (rule pool_act)
  moreover have "unat (queuedepth (act a s)) < 2 ^ 31"
    using Cons.prems(2) by (simp add: act_queuedepth)
  ultimately show ?case using Cons.IH by (simp add: run_Cons)
qed

subsection \<open>The streaming part of main as a sequence of steps\<close>

lemma submit_slot_queuedepth: "queuedepth (submit_slot i r s) = queuedepth s"
  by (simp add: submit_slot_eq)

lemma submit_loop_run:
  "submit_loop i rs s = run (map (\<lambda>j. Initial_submit j (rs j)) [i..<unat (queuedepth s)]) s"
proof (induction i rs s rule: submit_loop.induct)
  case (1 i rs s)
  show ?case
  proof (cases "i < unat (queuedepth s)")
    case True
    then have "submit_loop i rs s = submit_loop (Suc i) rs (submit_slot i (rs i) s)"
      by (simp add: submit_loop.simps[of i rs s])
    also have "\<dots> = run (map (\<lambda>j. Initial_submit j (rs j)) [Suc i..<unat (queuedepth s)])
        (submit_slot i (rs i) s)"
      using "1.IH"[OF True] by (simp add: submit_slot_queuedepth)
    also have "\<dots> = run (map (\<lambda>j. Initial_submit j (rs j)) [i..<unat (queuedepth s)]) s"
      using True by (simp add: upt_conv_Cons run_Cons)
    finally show ?thesis .
  next
    case False
    then show ?thesis by (simp add: submit_loop.simps[of i rs s] run_Nil)
  qed
qed

lemma handle_events_run:
  "libusb_handle_events evs s = run (Made Handle_events # map Deliver evs) s"
proof -
  have "fold deliver evs s' = fold act (map Deliver evs) s'" for s'
    by (induction evs arbitrary: s') simp_all
  then show ?thesis by (simp add: libusb_handle_events_def run_def)
qed

lemma configure_run: "\<exists>acts. configure DITH RANDO s = run acts s"
proof -
  define gpio where "gpio = (if randomizer s \<noteq> 0
     then (if dither s \<noteq> 0 then 0 OR DITH else 0) OR RANDO
     else (if dither s \<noteq> 0 then 0 OR DITH else 0))"
  have "configure DITH RANDO s =
    run [Made (Usleep 5000), Made (Command_send GPIOFX3 gpio),
         Made (Usleep 5000), Made (Argument_send DAT31_ATT (att s)),
         Made (Usleep 5000), Made (Argument_send AD8340_VGA (gain s)),
         Made (Usleep 5000), Made (Command_send STARTADC (samplerate s)),
         Made (Usleep 5000), Made (Command_send STARTFX3 0),
         Made (Usleep 5000), Made (Command_send TUNERSTDBY 0)] s"
    by (simp add: configure_def run_def command_send_def argument_send_def usleep_def
        called_def Let_def gpio_def)
  then show ?thesis by blast
qed

lemma main_loop_run:
  "main_loop batches s = Some (rest, s') \<Longrightarrow> \<exists>acts. s' = run acts s"
proof (induction batches arbitrary: s)
  case Nil
  then show ?case by simp
next
  case (Cons evs batches)
  let ?s1 = "libusb_handle_events evs s"
  show ?case
  proof (cases "stop_transfers ?s1")
    case True
    then have "s' = ?s1" using Cons.prems by (simp add: Let_def)
    then show ?thesis using handle_events_run by blast
  next
    case False
    then have "main_loop batches ?s1 = Some (rest, s')"
      using Cons.prems by (simp add: Let_def)
    then obtain acts where "s' = run acts ?s1" using Cons.IH by blast
    then have "s' = run ((Made Handle_events # map Deliver evs) @ acts) s"
      by (simp only: run_append handle_events_run)
    then show ?thesis by blast
  qed
qed

lemma drain_pass_run:
  "usleep 100000 (libusb_handle_events evs (fprintf_stderr m s)) =
     run (Said m # (Made Handle_events # map Deliver evs) @ [Made (Usleep 100000)]) s"
  by (simp add: handle_events_run run_Cons run_append run_Nil usleep_def)

lemma drain_loop_run:
  "drain_loop batches s = Some (rest, s') \<Longrightarrow> \<exists>acts. s' = run acts s"
proof (induction batches arbitrary: s)
  case Nil
  then have "s' = run [] s" by (simp add: run_Nil split: if_splits)
  then show ?case by blast
next
  case (Cons evs batches)
  show ?case
  proof (cases "xfers_in_progress s \<noteq> 0")
    case False
    then have "s' = run [] s" using Cons.prems by (simp add: run_Nil)
    then show ?thesis by blast
  next
    case True
    let ?m = "Transfers_pending (xfers_in_progress s)"
    let ?s1 = "usleep 100000 (libusb_handle_events evs (fprintf_stderr ?m s))"
    have "drain_loop batches ?s1 = Some (rest, s')"
      using Cons.prems True by simp
    then obtain acts where "s' = run acts ?s1" using Cons.IH by blast
    then have "s' = run ((Said ?m # (Made Handle_events # map Deliver evs) @ [Made (Usleep 100000)]) @ acts) s"
      by (simp only: run_append drain_pass_run)
    then show ?thesis by blast
  qed
qed

lemma shutdown_Some:
  assumes "shutdown batches s = Some (rest, s')"
  obtains s2 where
    "drain_loop batches ((fprintf_stderr Test_complete s)\<lparr>stop_transfers := True\<rparr>) = Some (rest, s2)"
    and "s' = command_send STOPFX3 0 (fprintf_stderr Transfers_completed s2)"
proof (cases "drain_loop batches ((fprintf_stderr Test_complete s)\<lparr>stop_transfers := True\<rparr>)")
  case None
  then show ?thesis using assms by (simp add: shutdown_def)
next
  case (Some p)
  then show ?thesis using assms that by (cases p) (simp add: shutdown_def)
qed

lemma stream_Some:
  assumes "stream DITH RANDO rs batches s = Some (rest, s')"
  obtains mid s3 where
    "main_loop batches (configure DITH RANDO (submit_loop 0 rs s)) = Some (mid, s3)"
    and "shutdown mid s3 = Some (rest, s')"
proof (cases "main_loop batches (configure DITH RANDO (submit_loop 0 rs s))")
  case None
  then show ?thesis using assms by (simp add: stream_def)
next
  case (Some p)
  then show ?thesis using assms that by (cases p) (simp add: stream_def)
qed

lemma shutdown_run:
  assumes "shutdown batches s = Some (rest, s')"
  shows "\<exists>acts. s' = run acts s"
proof -
  let ?s1 = "(fprintf_stderr Test_complete s)\<lparr>stop_transfers := True\<rparr>"
  from assms obtain s2 where d: "drain_loop batches ?s1 = Some (rest, s2)"
    and s': "s' = command_send STOPFX3 0 (fprintf_stderr Transfers_completed s2)"
    by (rule shutdown_Some)
  from d obtain acts where a: "s2 = run acts ?s1" using drain_loop_run by blast
  have b: "?s1 = run [Said Test_complete, Stop_requested] s"
    by (simp add: run_Cons run_Nil)
  have c: "s' = run [Said Transfers_completed, Made (Command_send STOPFX3 0)] s2"
    using s' by (simp add: run_Cons run_Nil command_send_def)
  have "s' = run ([Said Test_complete, Stop_requested] @ acts @
      [Said Transfers_completed, Made (Command_send STOPFX3 0)]) s"
    unfolding run_append using a b c by simp
  then show ?thesis by blast
qed

lemma stream_run:
  assumes "stream DITH RANDO rs batches s = Some (rest, s')"
  shows "\<exists>acts. s' = run acts s"
proof -
  let ?s1 = "submit_loop 0 rs s"
  let ?s2 = "configure DITH RANDO ?s1"
  from assms obtain mid s3 where m: "main_loop batches ?s2 = Some (mid, s3)"
    and sh: "shutdown mid s3 = Some (rest, s')"
    by (rule stream_Some)
  obtain a1 where a1: "?s1 = run a1 s" using submit_loop_run by blast
  obtain a2 where a2: "?s2 = run a2 ?s1" using configure_run by blast
  obtain a3 where a3: "s3 = run a3 ?s2" using m main_loop_run by blast
  obtain a4 where a4: "s' = run a4 s3" using sh shutdown_run by blast
  have "s' = run (a1 @ a2 @ a3 @ a4) s"
    unfolding run_append using a1 a2 a3 a4 by simp
  then show ?thesis by blast
qed

text \<open>
  \<^bold>\<open>C2.\<close> From a start with nothing submitted, after any sequence of steps (initial
  submissions, deliveries of completions with any status and any write and resubmission
  outcome, signals, the stop request) the counter \<open>xfers_in_progress\<close> equals the number
  of slots libusb holds, and lies between 0 and \<open>queuedepth\<close>. The counter goes up by one
  exactly when a submission returns 0 and goes down by one in every callback. The queue
  depth is below \<open>2^31\<close>, as every depth the option check accepts (1 to 64) is.
\<close>

theorem in_flight_count_invariant:
  assumes "xfers_in_progress s0 = 0" and "in_flight s0 = {}" and "unat (queuedepth s0) < 2 ^ 31"
  shows "(let s = run acts s0 in
           xfers_in_progress s = int (card (in_flight s)) \<and>
           0 \<le> xfers_in_progress s \<and>
           xfers_in_progress s \<le> int (unat (queuedepth s0)) \<and>
           in_flight s \<subseteq> {..<unat (queuedepth s0)}) \<and>
         xfers_in_progress (submit_slot i r s) =
           (if fst (libusb_submit_transfer i r s) = 0 then wrap_int (xfers_in_progress s + 1)
            else xfers_in_progress s) \<and>
         xfers_in_progress (transfer_callback t w r s) =
           (let s2 = completion_branch t w (s\<lparr>xfers_in_progress := wrap_int (xfers_in_progress s - 1)\<rparr>)
            in if \<not> stop_transfers s2 \<and> fst (libusb_submit_transfer (slot t) r s2) = 0
               then wrap_int (wrap_int (xfers_in_progress s - 1) + 1)
               else wrap_int (xfers_in_progress s - 1))"
proof -
  have "pool_invariant s0" using assms(1,2) by (simp add: pool_invariant_def)
  then have inv: "pool_invariant (run acts s0)" using assms(3) by (rule pool_run)
  then have "card (in_flight (run acts s0)) \<le> unat (queuedepth s0)"
    using pool_card_le[of "run acts s0"] by (simp add: run_queuedepth)
  then have "int (card (in_flight (run acts s0))) \<le> int (unat (queuedepth s0))"
    by (simp only: of_nat_le_iff)
  then have a: "let s = run acts s0 in
           xfers_in_progress s = int (card (in_flight s)) \<and>
           0 \<le> xfers_in_progress s \<and>
           xfers_in_progress s \<le> int (unat (queuedepth s0)) \<and>
           in_flight s \<subseteq> {..<unat (queuedepth s0)}"
    using inv by (simp add: pool_invariant_def run_queuedepth Let_def)
  have b: "xfers_in_progress (submit_slot i r s) =
           (if fst (libusb_submit_transfer i r s) = 0 then wrap_int (xfers_in_progress s + 1)
            else xfers_in_progress s)"
    by (simp add: submit_slot_eq libusb_submit_transfer_def called_def Let_def)
  have c: "xfers_in_progress (transfer_callback t w r s) =
           (let s2 = completion_branch t w (s\<lparr>xfers_in_progress := wrap_int (xfers_in_progress s - 1)\<rparr>)
            in if \<not> stop_transfers s2 \<and> fst (libusb_submit_transfer (slot t) r s2) = 0
               then wrap_int (wrap_int (xfers_in_progress s - 1) + 1)
               else wrap_int (xfers_in_progress s - 1))"
    by (cases w)
      (simp_all add: callback_eq libusb_submit_transfer_def called_def Let_def)
  show ?thesis using a b c by blast
qed

section \<open>Failed transfers and failed writes\<close>

lemma deliver_stop_failed:
  "status t \<noteq> LIBUSB_TRANSFER_COMPLETED \<Longrightarrow>
   stop_transfers (deliver (Completion t w r) s) = stop_transfers s"
  by (simp add: callback_stop)

text \<open>
  \<^bold>\<open>C4.\<close> A transfer that completes with a status other than
  \<^verbatim>\<open>LIBUSB_TRANSFER_COMPLETED\<close>: \<open>failure_count\<close> goes up by one, \<open>success_count\<close> stays, nothing
  is written to the sink, the status is logged, the slot is submitted again unless
  \<open>stop_transfers\<close> is set, the flag itself is untouched, and the main loop goes on.
\<close>

theorem failed_transfer_not_fatal:
  assumes "status t \<noteq> LIBUSB_TRANSFER_COMPLETED"
  shows "(let s' = transfer_callback t w r s in
           failure_count s' = failure_count s + 1 \<and>
           success_count s' = success_count s \<and>
           stdout s' = stdout s \<and>
           stderr s' = stderr s @ [Transfer_callback_status (status t) (actual_length t)] \<and>
           stop_transfers s' = stop_transfers s \<and>
           calls s' = calls s @ (if stop_transfers s then [] else [Submit_transfer (slot t)])) \<and>
         (\<not> stop_transfers s \<longrightarrow>
            main_loop ([Completion t w r] # batches) s =
              main_loop batches (libusb_handle_events [Completion t w r] s))"
proof -
  have a: "stop_transfers (transfer_callback t w r s) = stop_transfers s"
    using assms by (simp add: callback_stop)
  have b: "stop_transfers (libusb_handle_events [Completion t w r] s) = stop_transfers s"
    using assms by (simp add: libusb_handle_events_def callback_stop called_def)
  show ?thesis
    using assms a b
    by (simp add: Let_def callback_failure_count callback_success_count callback_stdout
        callback_stderr callback_calls)
qed

theorem failed_transfer_not_fatal_witness:
  "status \<lparr>slot = 3, status = LIBUSB_TRANSFER_TIMED_OUT, actual_length = 0, buffer = []\<rparr>
     \<noteq> LIBUSB_TRANSFER_COMPLETED \<and>
   failure_count (transfer_callback
       \<lparr>slot = 3, status = LIBUSB_TRANSFER_TIMED_OUT, actual_length = 0, buffer = []\<rparr>
       (Written 0) 0 initial_state) = 1 \<and>
   calls (transfer_callback
       \<lparr>slot = 3, status = LIBUSB_TRANSFER_TIMED_OUT, actual_length = 0, buffer = []\<rparr>
       (Written 0) 0 initial_state) = [Submit_transfer 3]"
  using failed_transfer_not_fatal[of
      "\<lparr>slot = 3, status = LIBUSB_TRANSFER_TIMED_OUT, actual_length = 0, buffer = []\<rparr>"
      "Written 0" 0 initial_state]
  by (simp add: Let_def initial_state_def)

text \<open>
  \<^bold>\<open>C8\<close>, as the code has it. After a write to the sink, whatever its outcome,
  \<open>success_count\<close> has gone up by one and \<open>failure_count\<close> is unchanged: no counter records
  a failed or partial write. A write that returns a negative value is logged; a partial
  write is not. The slot is submitted again unless \<open>stop_transfers\<close> is set when the write
  has returned (a broken pipe raises SIGPIPE, whose handler sets it). Unless the pipe
  broke, the counter, the set of submitted slots and the calls made are those of a
  complete write.
\<close>

theorem sink_write_outcome:
  assumes "status t = LIBUSB_TRANSFER_COMPLETED"
  shows "(let s' = transfer_callback t w r s;
              full = transfer_callback t (Written (nat (actual_length t))) r s in
           stderr s' = stderr s @
             (case w of Written n \<Rightarrow> []
              | Write_error \<Rightarrow> [Error_writing_to_stdout]
              | Broken_pipe \<Rightarrow> [Abort_stopping_transfers, Error_writing_to_stdout]) \<and>
           failure_count s' = failure_count s \<and>
           success_count s' = success_count s + 1 \<and>
           stop_transfers s' = (stop_transfers s \<or> w = Broken_pipe) \<and>
           calls s' = calls s @ (if stop_transfers s' then [] else [Submit_transfer (slot t)]) \<and>
           (w \<noteq> Broken_pipe \<longrightarrow>
              xfers_in_progress s' = xfers_in_progress full \<and>
              in_flight s' = in_flight full \<and>
              calls s' = calls full))"
  using assms
  by (cases w)
    (simp_all add: Let_def callback_failure_count callback_success_count callback_stderr
      callback_calls callback_stop callback_xfers callback_in_flight)

theorem sink_write_outcome_witness:
  "status \<lparr>slot = 0, status = LIBUSB_TRANSFER_COMPLETED, actual_length = 4, buffer = [1, 2, 3, 4]\<rparr>
     = LIBUSB_TRANSFER_COMPLETED \<and>
   stderr (transfer_callback
       \<lparr>slot = 0, status = LIBUSB_TRANSFER_COMPLETED, actual_length = 4, buffer = [1, 2, 3, 4]\<rparr>
       Write_error 0 initial_state) = [Error_writing_to_stdout] \<and>
   calls (transfer_callback
       \<lparr>slot = 0, status = LIBUSB_TRANSFER_COMPLETED, actual_length = 4, buffer = [1, 2, 3, 4]\<rparr>
       Write_error 0 initial_state) = [Submit_transfer 0]"
  using sink_write_outcome[of
      "\<lparr>slot = 0, status = LIBUSB_TRANSFER_COMPLETED, actual_length = 4, buffer = [1, 2, 3, 4]\<rparr>"
      Write_error 0 initial_state]
  by (simp add: Let_def initial_state_def)

text \<open>
  A partial write (one byte of four accepted) leaves no message and counts as a success:
  the claim that every failed or partial write is logged and counted does not hold.
\<close>

theorem partial_write_counterexample:
  "stdout (transfer_callback
       \<lparr>slot = 0, status = LIBUSB_TRANSFER_COMPLETED, actual_length = 4, buffer = [1, 2, 3, 4]\<rparr>
       (Written 1) 0 initial_state) = [1] \<and>
   stderr (transfer_callback
       \<lparr>slot = 0, status = LIBUSB_TRANSFER_COMPLETED, actual_length = 4, buffer = [1, 2, 3, 4]\<rparr>
       (Written 1) 0 initial_state) = [] \<and>
   failure_count (transfer_callback
       \<lparr>slot = 0, status = LIBUSB_TRANSFER_COMPLETED, actual_length = 4, buffer = [1, 2, 3, 4]\<rparr>
       (Written 1) 0 initial_state) = 0 \<and>
   success_count (transfer_callback
       \<lparr>slot = 0, status = LIBUSB_TRANSFER_COMPLETED, actual_length = 4, buffer = [1, 2, 3, 4]\<rparr>
       (Written 1) 0 initial_state) = 1"
  by (simp add: callback_stdout callback_stderr callback_failure_count callback_success_count
      initial_state_def)

text \<open>
  \<^bold>\<open>C3.\<close> A transfer completed with success while the transform is enabled: the bytes
  offered to the sink are those of the transformed buffer, in which every sample with bit 0
  clear is unchanged, every sample with bit 0 set is the original exclusive-or \<open>0xFFFE\<close>,
  and, when the length is odd, the last byte is untouched.
\<close>

theorem completed_buffer_transform:
  assumes "status t = LIBUSB_TRANSFER_COMPLETED" and "randomizer s \<noteq> 0"
    and "0 \<le> actual_length t" and "nat (actual_length t) \<le> length (buffer t)"
  shows "(let sz = actual_length t; buf = buffer t; out = randomizer_loop 0 sz buf in
          stdout (transfer_callback t (Written n) r s) = stdout s @ take (min n (nat sz)) out \<and>
          (\<forall>i. int i < sz div 2 \<longrightarrow>
             load_sample out i =
               (if bit (load_sample buf i) 0 then load_sample buf i XOR 0xfffe
                else load_sample buf i)) \<and>
          (odd sz \<longrightarrow> out ! (nat sz - 1) = buf ! (nat sz - 1)) \<and>
          length out = length buf)"
proof -
  let ?sz = "actual_length t" and ?buf = "buffer t"
  have sd: "?sz sdiv 2 = ?sz div 2" using assms(3) by (rule sdiv2_nonneg)
  have "2 * nat (?sz sdiv 2) \<le> length ?buf" using assms(3,4) sd by linarith
  note sp = randomizer_loop_spec[OF this, of 0]
  have a: "load_sample (randomizer_loop 0 ?sz ?buf) i =
      (if bit (load_sample ?buf i) 0 then load_sample ?buf i XOR 0xfffe else load_sample ?buf i)"
    if "int i < ?sz div 2" for i
    using sp that sd by (simp add: unrandomize_eq)
  have b: "randomizer_loop 0 ?sz ?buf ! (nat ?sz - 1) = ?buf ! (nat ?sz - 1)" if "odd ?sz"
  proof -
    from that obtain m where m: "?sz = 2 * m + 1" by (elim oddE)
    then have "0 \<le> m" and "?sz div 2 = m" using assms(3) by simp_all
    then have "2 * nat (?sz div 2) \<le> nat ?sz - 1" using m by simp
    then show ?thesis using sp sd by simp
  qed
  have c: "stdout (transfer_callback t (Written n) r s) =
      stdout s @ take (min n (nat ?sz)) (randomizer_loop 0 ?sz ?buf)"
    using assms(1,2) by (simp add: callback_stdout)
  show ?thesis using a b c sp by (simp add: Let_def)
qed

lemma loop_3bytes: "randomizer_loop 0 3 [1, 128, 3 :: byte] = [255, 127, 3]"
  by (simp add: randomizer_loop.simps[of _ 3] signed_divide_int_def store_sample_def
      load_sample_def unrandomize_def)

theorem completed_buffer_transform_witness:
  "status \<lparr>slot = 0, status = LIBUSB_TRANSFER_COMPLETED, actual_length = 3, buffer = [1, 128, 3]\<rparr>
     = LIBUSB_TRANSFER_COMPLETED \<and>
   randomizer (initial_state\<lparr>randomizer := 1\<rparr>) \<noteq> 0 \<and>
   stdout (transfer_callback
      \<lparr>slot = 0, status = LIBUSB_TRANSFER_COMPLETED, actual_length = 3, buffer = [1, 128, 3]\<rparr>
      (Written 3) 0 (initial_state\<lparr>randomizer := 1\<rparr>)) = [255, 127, 3]"
  using completed_buffer_transform[of
      "\<lparr>slot = 0, status = LIBUSB_TRANSFER_COMPLETED, actual_length = 3, buffer = [1, 128, 3]\<rparr>"
      "initial_state\<lparr>randomizer := 1\<rparr>" 3 0]
  by (simp add: Let_def initial_state_def loop_3bytes)

lemma example_run:
  "run [Initial_submit 0 0, Initial_submit 1 (- 1), Initial_submit 2 0,
        Deliver (Completion \<lparr>slot = 0, status = LIBUSB_TRANSFER_COMPLETED, actual_length = 2,
                  buffer = [1, 2]\<rparr> (Written 2) 0),
        Deliver Signal,
        Deliver (Completion \<lparr>slot = 2, status = LIBUSB_TRANSFER_ERROR, actual_length = 0,
                  buffer = [1, 2]\<rparr> Write_error 0)] initial_state
   = initial_state\<lparr>
       calls := [Submit_transfer 0, Submit_transfer 1, Submit_transfer 2, Submit_transfer 0],
       in_flight := {0}, xfers_in_progress := 1, success_count := 1, failure_count := 1,
       stdout := [1, 2],
       stderr := [Abort_stopping_transfers, Transfer_callback_status LIBUSB_TRANSFER_ERROR 0],
       stop_transfers := True\<rparr>"
  by (simp add: run_def submit_slot_eq callback_eq initial_state_def wrap_int_def
      sig_stop_def fprintf_stderr_def insert_commute insert_Diff_if)

theorem in_flight_count_invariant_witness:
  "xfers_in_progress initial_state = 0 \<and> in_flight initial_state = {} \<and>
   unat (queuedepth initial_state) < 2 ^ 31 \<and>
   xfers_in_progress
     (run [Initial_submit 0 0, Initial_submit 1 (- 1), Initial_submit 2 0,
        Deliver (Completion \<lparr>slot = 0, status = LIBUSB_TRANSFER_COMPLETED, actual_length = 2,
                  buffer = [1, 2]\<rparr> (Written 2) 0),
        Deliver Signal,
        Deliver (Completion \<lparr>slot = 2, status = LIBUSB_TRANSFER_ERROR, actual_length = 0,
                  buffer = [1, 2]\<rparr> Write_error 0)] initial_state) = 1 \<and>
   in_flight
     (run [Initial_submit 0 0, Initial_submit 1 (- 1), Initial_submit 2 0,
        Deliver (Completion \<lparr>slot = 0, status = LIBUSB_TRANSFER_COMPLETED, actual_length = 2,
                  buffer = [1, 2]\<rparr> (Written 2) 0),
        Deliver Signal,
        Deliver (Completion \<lparr>slot = 2, status = LIBUSB_TRANSFER_ERROR, actual_length = 0,
                  buffer = [1, 2]\<rparr> Write_error 0)] initial_state) = {0}"
proof -
  have h: "xfers_in_progress initial_state = 0" "in_flight initial_state = {}"
    "unat (queuedepth initial_state) < 2 ^ 31"
    by (simp_all add: initial_state_def)
  show ?thesis
    using h in_flight_count_invariant[OF h]
    unfolding example_run by simp
qed

section \<open>Shutdown\<close>

subsection \<open>Once the stop flag is set\<close>

lemma deliver_stopped:
  assumes "stop_transfers s"
  shows "stop_transfers (deliver e s) \<and> calls (deliver e s) = calls s"
proof (cases e)
  case (Completion t w r)
  then show ?thesis using assms by (simp add: callback_stop callback_calls)
next
  case Signal
  then show ?thesis by (simp add: sig_stop_def fprintf_stderr_def)
qed

lemma fold_deliver_stopped:
  "stop_transfers s \<Longrightarrow>
   stop_transfers (fold deliver evs s) \<and> calls (fold deliver evs s) = calls s"
proof (induction evs arbitrary: s)
  case Nil
  then show ?case by simp
next
  case (Cons e evs)
  then show ?case using deliver_stopped[of s e] by simp
qed

lemma handle_events_stopped:
  assumes "stop_transfers s"
  shows "stop_transfers (libusb_handle_events evs s) \<and>
         calls (libusb_handle_events evs s) = calls s @ [Handle_events]"
proof -
  have "stop_transfers (called Handle_events s)" using assms by (simp add: called_def)
  from fold_deliver_stopped[OF this, of evs] show ?thesis
    by (simp add: libusb_handle_events_def called_def)
qed

subsection \<open>The drain loop\<close>

lemma drain_loop_zero:
  "drain_loop batches s = Some (rest, s') \<Longrightarrow> xfers_in_progress s' = 0"
proof (induction batches arbitrary: s)
  case Nil
  then show ?case by (simp split: if_splits)
next
  case (Cons evs batches)
  then show ?case by (simp split: if_splits)
qed

lemma drain_pass_idle:
  "xfers_in_progress (usleep n (libusb_handle_events [] (fprintf_stderr m s))) = xfers_in_progress s"
  by (simp add: usleep_def libusb_handle_events_def called_def fprintf_stderr_def)

lemma drain_loop_waits:
  "xfers_in_progress s \<noteq> 0 \<Longrightarrow> drain_loop (replicate n []) s = None"
proof (induction n arbitrary: s)
  case 0
  then show ?case by simp
next
  case (Suc n)
  let ?s1 = "usleep 100000 (libusb_handle_events []
      (fprintf_stderr (Transfers_pending (xfers_in_progress s)) s))"
  have "xfers_in_progress ?s1 \<noteq> 0" using Suc.prems by (simp add: drain_pass_idle)
  then have "drain_loop (replicate n []) ?s1 = None" by (rule Suc.IH)
  then show ?case using Suc.prems by simp
qed

subsection \<open>Counting stop commands\<close>

lemma stop_commands_called:
  "stop_commands (called c s) = stop_commands s + (if is_stop_command c then 1 else 0)"
  by (simp add: stop_commands_def called_def)

lemma stop_commands_fprintf: "stop_commands (fprintf_stderr m s) = stop_commands s"
  by (simp add: stop_commands_def fprintf_stderr_def)

lemma stop_commands_act:
  "stop_commands (act a s) =
     stop_commands s + (case a of Made c \<Rightarrow> if is_stop_command c then 1 else 0 | _ \<Rightarrow> 0)"
proof (cases a)
  case (Initial_submit i r)
  then show ?thesis by (simp add: stop_commands_def submit_slot_eq)
next
  case (Deliver e)
  show ?thesis
  proof (cases e)
    case (Completion t w r)
    then show ?thesis using Deliver by (simp add: stop_commands_def callback_calls)
  next
    case Signal
    then show ?thesis using Deliver by (simp add: stop_commands_def sig_stop_def fprintf_stderr_def)
  qed
next
  case Stop_requested
  then show ?thesis by (simp add: stop_commands_def)
next
  case (Made c)
  then show ?thesis by (simp add: stop_commands_called)
next
  case (Said m)
  then show ?thesis by (simp add: stop_commands_fprintf)
qed

lemma stop_commands_run_quiet:
  "list_all quiet acts \<Longrightarrow> stop_commands (run acts s) = stop_commands s"
proof (induction acts arbitrary: s)
  case Nil
  then show ?case by (simp add: run_Nil)
next
  case (Cons a acts)
  then have "stop_commands (act a s) = stop_commands s"
    by (cases a) (simp_all add: stop_commands_act del: act.simps)
  then show ?case using Cons by (simp add: run_Cons)
qed

lemma stop_commands_handle_events:
  "stop_commands (libusb_handle_events evs s) = stop_commands s"
proof -
  have "list_all quiet (Made Handle_events # map Deliver evs)"
    by (induction evs) simp_all
  then show ?thesis by (simp only: handle_events_run stop_commands_run_quiet)
qed

lemma stop_commands_submit_loop: "stop_commands (submit_loop i rs s) = stop_commands s"
proof -
  have "list_all quiet (map (\<lambda>j. Initial_submit j (rs j)) xs)" for xs
    by (induction xs) simp_all
  then show ?thesis by (simp only: submit_loop_run stop_commands_run_quiet)
qed

lemma stop_commands_configure: "stop_commands (configure DITH RANDO s) = stop_commands s"
  by (simp add: configure_def Let_def command_send_def argument_send_def usleep_def
      stop_commands_called)

lemma stop_commands_main_loop:
  "main_loop batches s = Some (rest, s') \<Longrightarrow> stop_commands s' = stop_commands s"
proof (induction batches arbitrary: s)
  case Nil
  then show ?case by simp
next
  case (Cons evs batches)
  then show ?case
    by (auto simp: Let_def stop_commands_handle_events split: if_splits)
qed

lemma stop_commands_drain_loop:
  "drain_loop batches s = Some (rest, s') \<Longrightarrow> stop_commands s' = stop_commands s"
proof (induction batches arbitrary: s)
  case Nil
  then show ?case by (simp split: if_splits)
next
  case (Cons evs batches)
  show ?case
  proof (cases "xfers_in_progress s \<noteq> 0")
    case False
    then show ?thesis using Cons.prems by simp
  next
    case True
    let ?s1 = "usleep 100000 (libusb_handle_events evs
      (fprintf_stderr (Transfers_pending (xfers_in_progress s)) s))"
    have "drain_loop batches ?s1 = Some (rest, s')" using Cons.prems True by simp
    then have "stop_commands s' = stop_commands ?s1" by (rule Cons.IH)
    then show ?thesis
      by (simp add: usleep_def stop_commands_called stop_commands_handle_events
          stop_commands_fprintf)
  qed
qed

lemma stop_commands_shutdown:
  assumes "shutdown batches s = Some (rest, s')"
  shows "stop_commands s' = stop_commands s + 1 \<and> xfers_in_progress s' = 0 \<and>
         last (calls s') = Command_send STOPFX3 0"
proof -
  let ?s1 = "(fprintf_stderr Test_complete s)\<lparr>stop_transfers := True\<rparr>"
  from assms obtain s2 where d: "drain_loop batches ?s1 = Some (rest, s2)"
    and s': "s' = command_send STOPFX3 0 (fprintf_stderr Transfers_completed s2)"
    by (rule shutdown_Some)
  have "stop_commands s2 = stop_commands ?s1" using d by (rule stop_commands_drain_loop)
  also have "\<dots> = stop_commands s" by (simp add: stop_commands_def fprintf_stderr_def)
  finally have a: "stop_commands s2 = stop_commands s" .
  have b: "xfers_in_progress s2 = 0" using d by (rule drain_loop_zero)
  have c: "stop_commands s' = stop_commands s2 + 1"
    using s' by (simp add: command_send_def stop_commands_called stop_commands_fprintf)
  have e: "xfers_in_progress s' = xfers_in_progress s2"
    and f: "last (calls s') = Command_send STOPFX3 0"
    using s' by (simp_all add: command_send_def called_def fprintf_stderr_def)
  show ?thesis using a b c e f by simp
qed

lemma stop_commands_stream:
  assumes "stream DITH RANDO rs batches s = Some (rest, s')"
  shows "stop_commands s' = stop_commands s + 1"
proof -
  from assms obtain mid s3 where
    m: "main_loop batches (configure DITH RANDO (submit_loop 0 rs s)) = Some (mid, s3)"
    and sh: "shutdown mid s3 = Some (rest, s')"
    by (rule stream_Some)
  have "stop_commands s3 = stop_commands s"
    using stop_commands_main_loop[OF m]
    by (simp add: stop_commands_configure stop_commands_submit_loop)
  then show ?thesis using stop_commands_shutdown[OF sh] by simp
qed

lemma drain_loop_done: "xfers_in_progress s = 0 \<Longrightarrow> drain_loop batches s = Some (batches, s)"
  by (cases batches) simp_all

lemma completed_slots_Nil: "completed_slots [] = {}"
  by (simp add: completed_slots_def)

lemma completed_slots_Cons:
  "completed_slots (evs # batches) = (\<Union>e \<in> set evs. completes e) \<union> completed_slots batches"
  by (simp add: completed_slots_def)

lemma completed_slots_append:
  "completed_slots (xs @ ys) = completed_slots xs \<union> completed_slots ys"
  by (simp add: completed_slots_def)

lemma deliver_in_flight_stopped:
  assumes "stop_transfers s"
  shows "in_flight (deliver e s) = in_flight s - completes e"
proof (cases e)
  case (Completion t w r)
  then show ?thesis using assms by (simp add: callback_in_flight callback_stop)
next
  case Signal
  then show ?thesis by (simp add: sig_stop_def fprintf_stderr_def)
qed

lemma fold_deliver_in_flight_stopped:
  "stop_transfers s \<Longrightarrow>
   in_flight (fold deliver evs s) = in_flight s - (\<Union>e \<in> set evs. completes e)"
proof (induction evs arbitrary: s)
  case Nil
  then show ?case by simp
next
  case (Cons e evs)
  have st: "stop_transfers (deliver e s)" using Cons.prems deliver_stopped by blast
  have "in_flight (fold deliver evs (deliver e s)) =
      in_flight (deliver e s) - (\<Union>e \<in> set evs. completes e)"
    using st by (rule Cons.IH)
  also have "\<dots> = in_flight s - completes e - (\<Union>e \<in> set evs. completes e)"
    using Cons.prems by (simp only: deliver_in_flight_stopped)
  also have "\<dots> = in_flight s - (\<Union>e \<in> set (e # evs). completes e)"
    by auto
  finally show ?case by simp
qed

lemma pool_fold_deliver:
  "pool_invariant s \<Longrightarrow> unat (queuedepth s) < 2 ^ 31 \<Longrightarrow> pool_invariant (fold deliver evs s)"
proof (induction evs arbitrary: s)
  case Nil
  then show ?case by simp
next
  case (Cons e evs)
  have "pool_invariant (deliver e s)" using Cons.prems by (rule pool_deliver)
  moreover have "unat (queuedepth (deliver e s)) < 2 ^ 31"
    using Cons.prems(2) by (simp only: deliver_queuedepth)
  ultimately show ?case using Cons.IH by simp
qed

lemma fold_deliver_queuedepth: "queuedepth (fold deliver evs s) = queuedepth s"
  by (induction evs arbitrary: s) (simp_all add: deliver_queuedepth)

text \<open>One pass of the drain loop, once the stop flag is set.\<close>

lemma drain_pass_stopped:
  assumes "stop_transfers s" and "pool_invariant s" and "unat (queuedepth s) < 2 ^ 31"
    and s1_def: "s1 = usleep 100000 (libusb_handle_events evs (fprintf_stderr m s))"
  shows "stop_transfers s1" and "pool_invariant s1" and "queuedepth s1 = queuedepth s"
    and "in_flight s1 = in_flight s - (\<Union>e \<in> set evs. completes e)"
proof -
  let ?s0 = "called Handle_events (fprintf_stderr m s)"
  have a: "stop_transfers ?s0" "pool_invariant ?s0" "unat (queuedepth ?s0) < 2 ^ 31"
    and b: "in_flight ?s0 = in_flight s" "queuedepth ?s0 = queuedepth s"
    using assms(1,2,3) by (simp_all add: called_def fprintf_stderr_def pool_invariant_def)
  have s1: "s1 = called (Usleep 100000) (fold deliver evs ?s0)"
    by (simp add: s1_def usleep_def libusb_handle_events_def)
  have c: "stop_transfers (fold deliver evs ?s0)"
    using fold_deliver_stopped[OF a(1)] by blast
  have d: "pool_invariant (fold deliver evs ?s0)"
    using a(2,3) by (rule pool_fold_deliver)
  have e: "in_flight (fold deliver evs ?s0) = in_flight s - (\<Union>e \<in> set evs. completes e)"
    using fold_deliver_in_flight_stopped[OF a(1), of evs] b(1) by simp
  have f: "queuedepth (fold deliver evs ?s0) = queuedepth s"
    using b(2) by (simp only: fold_deliver_queuedepth)
  show "stop_transfers s1" using c by (simp add: s1 called_def)
  show "pool_invariant s1" using d by (simp add: s1 called_def pool_invariant_def)
  show "queuedepth s1 = queuedepth s" using f by (simp add: s1 called_def)
  show "in_flight s1 = in_flight s - (\<Union>e \<in> set evs. completes e)"
    using e by (simp add: s1 called_def)
qed

text \<open>
  The drain loop returns whenever the completions it is going to be handed, spread over
  however many calls of \<^verbatim>\<open>libusb_handle_events\<close> and mixed with whatever else, cover the
  slots in flight.
\<close>

lemma drain_loop_terminates:
  "stop_transfers s \<Longrightarrow> pool_invariant s \<Longrightarrow> unat (queuedepth s) < 2 ^ 31 \<Longrightarrow>
   in_flight s \<subseteq> completed_slots batches \<Longrightarrow>
   \<exists>rest s'. drain_loop batches s = Some (rest, s')"
proof (induction batches arbitrary: s)
  case Nil
  then have "in_flight s = {}" by (simp add: completed_slots_Nil)
  then have "xfers_in_progress s = 0" using Nil.prems(2) by (simp add: pool_invariant_def)
  then show ?case by simp
next
  case (Cons evs batches)
  show ?case
  proof (cases "xfers_in_progress s = 0")
    case True
    then show ?thesis by simp
  next
    case False
    let ?m = "Transfers_pending (xfers_in_progress s)"
    let ?s1 = "usleep 100000 (libusb_handle_events evs (fprintf_stderr ?m s))"
    note p = drain_pass_stopped[OF Cons.prems(1,2,3) refl, of evs ?m]
    have q: "unat (queuedepth ?s1) < 2 ^ 31" using Cons.prems(3) by (simp only: p(3))
    have "in_flight ?s1 \<subseteq> completed_slots batches"
      unfolding p(4) using Cons.prems(4) by (auto simp: completed_slots_Cons)
    from Cons.IH[OF p(1) p(2) q this]
    obtain rest s' where "drain_loop batches ?s1 = Some (rest, s')" by blast
    then have "drain_loop (evs # batches) s = Some (rest, s')" using False by simp
    then show ?thesis by blast
  qed
qed

lemma shutdown_terminates:
  assumes "pool_invariant s" and "unat (queuedepth s) < 2 ^ 31"
    and "in_flight s \<subseteq> completed_slots batches"
  shows "\<exists>rest s'. shutdown batches s = Some (rest, s')"
proof -
  let ?s1 = "(fprintf_stderr Test_complete s)\<lparr>stop_transfers := True\<rparr>"
  have "stop_transfers ?s1" "pool_invariant ?s1" "unat (queuedepth ?s1) < 2 ^ 31"
    "in_flight ?s1 \<subseteq> completed_slots batches"
    using assms by (simp_all add: fprintf_stderr_def pool_invariant_def)
  then obtain rest s2 where "drain_loop batches ?s1 = Some (rest, s2)"
    using drain_loop_terminates by blast
  then show ?thesis by (simp add: shutdown_def)
qed

lemma fold_deliver_signal:
  "Signal \<in> set evs \<Longrightarrow> stop_transfers (fold deliver evs s)"
proof (induction evs arbitrary: s)
  case Nil
  then show ?case by simp
next
  case (Cons e evs)
  show ?case
  proof (cases "e = Signal")
    case True
    then have "stop_transfers (deliver e s)" by (simp add: sig_stop_def)
    then show ?thesis using fold_deliver_stopped by simp
  next
    case False
    then have "Signal \<in> set evs" using Cons.prems by auto
    then show ?thesis using Cons.IH by simp
  qed
qed

lemma handle_events_signal:
  "Signal \<in> set evs \<Longrightarrow> stop_transfers (libusb_handle_events evs s)"
  by (simp add: libusb_handle_events_def fold_deliver_signal)

text \<open>
  The main loop ends at the latest with the call of \<^verbatim>\<open>libusb_handle_events\<close> during which
  a signal arrives; what it leaves unconsumed ends with what came after that call.
\<close>

lemma main_loop_terminates:
  "Signal \<in> set evs \<Longrightarrow>
   \<exists>mid s'. main_loop (pre @ evs # post) s = Some (mid @ post, s')"
proof (induction pre arbitrary: s)
  case Nil
  then have "stop_transfers (libusb_handle_events evs s)" by (rule handle_events_signal)
  then have "main_loop ([] @ evs # post) s = Some ([] @ post, libusb_handle_events evs s)"
    by (simp add: Let_def)
  then show ?case by blast
next
  case (Cons b pre)
  show ?case
  proof (cases "stop_transfers (libusb_handle_events b s)")
    case True
    then have "main_loop ((b # pre) @ evs # post) s =
        Some ((pre @ [evs]) @ post, libusb_handle_events b s)"
      by (simp add: Let_def)
    then show ?thesis by blast
  next
    case False
    from Cons.IH[OF Cons.prems, of "libusb_handle_events b s"]
    obtain mid s' where "main_loop (pre @ evs # post) (libusb_handle_events b s) = Some (mid @ post, s')"
      by blast
    then have "main_loop ((b # pre) @ evs # post) s = Some (mid @ post, s')"
      using False by (simp add: Let_def)
    then show ?thesis by blast
  qed
qed

lemma stream_terminates:
  assumes "xfers_in_progress s = 0" and "in_flight s = {}" and "unat (queuedepth s) < 2 ^ 31"
    and "Signal \<in> set evs" and "{..<unat (queuedepth s)} \<subseteq> completed_slots post"
  shows "\<exists>rest s'. stream DITH RANDO rs (pre @ evs # post) s = Some (rest, s')"
proof -
  let ?s2 = "configure DITH RANDO (submit_loop 0 rs s)"
  obtain a1 where a1: "submit_loop 0 rs s = run a1 s" using submit_loop_run by blast
  obtain a2 where a2: "?s2 = run a2 (submit_loop 0 rs s)" using configure_run by blast
  from main_loop_terminates[OF assms(4), of pre post ?s2]
  obtain mid s3 where m: "main_loop (pre @ evs # post) ?s2 = Some (mid @ post, s3)" by blast
  then obtain a3 where a3: "s3 = run a3 ?s2" using main_loop_run by blast
  have s3: "s3 = run (a1 @ a2 @ a3) s"
    unfolding run_append using a1 a2 a3 by simp
  have inv0: "pool_invariant s" using assms(1,2) by (simp add: pool_invariant_def)
  have inv: "pool_invariant s3" unfolding s3 using inv0 assms(3) by (rule pool_run)
  have q: "queuedepth s3 = queuedepth s" unfolding s3 by (rule run_queuedepth)
  have "in_flight s3 \<subseteq> {..<unat (queuedepth s)}"
    using inv q by (simp add: pool_invariant_def)
  then have "in_flight s3 \<subseteq> completed_slots (mid @ post)"
    using assms(5) by (auto simp: completed_slots_append)
  moreover have "unat (queuedepth s3) < 2 ^ 31" using assms(3) q by simp
  ultimately obtain rest s' where "shutdown (mid @ post) s3 = Some (rest, s')"
    using inv shutdown_terminates by blast
  then have "stream DITH RANDO rs (pre @ evs # post) s = Some (rest, s')"
    using m by (simp add: stream_def)
  then show ?thesis by blast
qed

text \<open>
  \<^bold>\<open>C5.\<close> Once \<open>stop_transfers\<close> is set, a callback submits nothing, and a whole call of
  \<^verbatim>\<open>libusb_handle_events\<close> adds no call but itself and leaves the flag set. The drain loop
  returns only with \<open>xfers_in_progress = 0\<close>; however many passes deliver nothing, it is
  still waiting (no pass count ends it). It does return, with nothing in flight, whenever
  the completions of the slots in flight arrive, in whichever of the coming calls of
  \<^verbatim>\<open>libusb_handle_events\<close> and in whatever order; then the shutdown (lines 505 to 515)
  returns too, and so does the whole streaming part (lines 468 to 515) once a signal has
  arrived and every slot of the pool completes afterwards. Whenever they return, they have
  sent the stop command exactly once more than before, as their last call, with nothing in
  flight.
\<close>

theorem shutdown_sequence:
  "(stop_transfers s \<longrightarrow>
      calls (transfer_callback t w r s) = calls s \<and>
      in_flight (transfer_callback t w r s) = in_flight s \<and>
      stop_transfers (transfer_callback t w r s)) \<and>
   (stop_transfers s \<longrightarrow>
      calls (libusb_handle_events evs s) = calls s @ [Handle_events] \<and>
      stop_transfers (libusb_handle_events evs s)) \<and>
   (drain_loop batches s = Some (rest, s') \<longrightarrow> xfers_in_progress s' = 0) \<and>
   (xfers_in_progress s \<noteq> 0 \<longrightarrow> drain_loop (replicate n []) s = None) \<and>
   (stop_transfers s \<and> pool_invariant s \<and> unat (queuedepth s) < 2 ^ 31 \<and>
    in_flight s \<subseteq> completed_slots batches \<longrightarrow>
      (\<exists>rest1 s1. drain_loop batches s = Some (rest1, s1) \<and> xfers_in_progress s1 = 0)) \<and>
   (pool_invariant s \<and> unat (queuedepth s) < 2 ^ 31 \<and>
    in_flight s \<subseteq> completed_slots batches \<longrightarrow>
      (\<exists>rest1 s1. shutdown batches s = Some (rest1, s1) \<and>
         stop_commands s1 = stop_commands s + 1 \<and> xfers_in_progress s1 = 0 \<and>
         last (calls s1) = Command_send STOPFX3 0)) \<and>
   (xfers_in_progress s = 0 \<and> in_flight s = {} \<and> unat (queuedepth s) < 2 ^ 31 \<and>
    Signal \<in> set evs \<and> {..<unat (queuedepth s)} \<subseteq> completed_slots post \<longrightarrow>
      (\<exists>rest1 s1. stream DITH RANDO rs (pre @ evs # post) s = Some (rest1, s1) \<and>
         stop_commands s1 = stop_commands s + 1 \<and> xfers_in_progress s1 = 0 \<and>
         last (calls s1) = Command_send STOPFX3 0)) \<and>
   (shutdown batches s = Some (rest, s') \<longrightarrow>
      stop_commands s' = stop_commands s + 1 \<and> xfers_in_progress s' = 0 \<and>
      last (calls s') = Command_send STOPFX3 0) \<and>
   (stream DITH RANDO rs batches s = Some (rest, s') \<longrightarrow>
      stop_commands s' = stop_commands s + 1 \<and> xfers_in_progress s' = 0 \<and>
      last (calls s') = Command_send STOPFX3 0)"
proof -
  have stream_post: "stop_commands s1 = stop_commands s0 + 1 \<and> xfers_in_progress s1 = 0 \<and>
      last (calls s1) = Command_send STOPFX3 0"
    if h: "stream DITH RANDO rs bs s0 = Some (rest1, s1)" for bs s0 rest1 s1
  proof -
    from h obtain mid s3 where sh: "shutdown mid s3 = Some (rest1, s1)"
      by (rule stream_Some)
    show ?thesis using stop_commands_stream[OF h] stop_commands_shutdown[OF sh] by simp
  qed
  have a: "stop_transfers s \<longrightarrow>
      calls (transfer_callback t w r s) = calls s \<and>
      in_flight (transfer_callback t w r s) = in_flight s \<and>
      stop_transfers (transfer_callback t w r s)"
  proof
    assume st: "stop_transfers s"
    then have "stop_transfers (transfer_callback t w r s)" by (simp add: callback_stop)
    then show "calls (transfer_callback t w r s) = calls s \<and>
      in_flight (transfer_callback t w r s) = in_flight s \<and>
      stop_transfers (transfer_callback t w r s)"
      by (simp add: callback_calls callback_in_flight)
  qed
  have b: "stop_transfers s \<longrightarrow>
      calls (libusb_handle_events evs s) = calls s @ [Handle_events] \<and>
      stop_transfers (libusb_handle_events evs s)"
  proof
    assume "stop_transfers s"
    from handle_events_stopped[OF this, of evs]
    show "calls (libusb_handle_events evs s) = calls s @ [Handle_events] \<and>
      stop_transfers (libusb_handle_events evs s)" by simp
  qed
  have c: "drain_loop batches s = Some (rest, s') \<longrightarrow> xfers_in_progress s' = 0"
    by (rule impI) (rule drain_loop_zero)
  have d: "xfers_in_progress s \<noteq> 0 \<longrightarrow> drain_loop (replicate n []) s = None"
    by (rule impI) (rule drain_loop_waits)
  have e: "stop_transfers s \<and> pool_invariant s \<and> unat (queuedepth s) < 2 ^ 31 \<and>
    in_flight s \<subseteq> completed_slots batches \<longrightarrow>
      (\<exists>rest1 s1. drain_loop batches s = Some (rest1, s1) \<and> xfers_in_progress s1 = 0)"
  proof
    assume h: "stop_transfers s \<and> pool_invariant s \<and> unat (queuedepth s) < 2 ^ 31 \<and>
      in_flight s \<subseteq> completed_slots batches"
    then have h1: "stop_transfers s" and h2: "pool_invariant s"
      and h3: "unat (queuedepth s) < 2 ^ 31"
      and h4: "in_flight s \<subseteq> completed_slots batches" by simp_all
    from drain_loop_terminates[OF h1 h2 h3 h4]
    obtain rest1 s1 where r: "drain_loop batches s = Some (rest1, s1)" by blast
    then have "xfers_in_progress s1 = 0" by (rule drain_loop_zero)
    then show "\<exists>rest1 s1. drain_loop batches s = Some (rest1, s1) \<and> xfers_in_progress s1 = 0"
      using r by blast
  qed
  have f: "pool_invariant s \<and> unat (queuedepth s) < 2 ^ 31 \<and>
    in_flight s \<subseteq> completed_slots batches \<longrightarrow>
      (\<exists>rest1 s1. shutdown batches s = Some (rest1, s1) \<and>
         stop_commands s1 = stop_commands s + 1 \<and> xfers_in_progress s1 = 0 \<and>
         last (calls s1) = Command_send STOPFX3 0)"
  proof
    assume h: "pool_invariant s \<and> unat (queuedepth s) < 2 ^ 31 \<and>
      in_flight s \<subseteq> completed_slots batches"
    then have h2: "pool_invariant s" and h3: "unat (queuedepth s) < 2 ^ 31"
      and h4: "in_flight s \<subseteq> completed_slots batches" by simp_all
    from shutdown_terminates[OF h2 h3 h4]
    obtain rest1 s1 where r: "shutdown batches s = Some (rest1, s1)" by blast
    from stop_commands_shutdown[OF r] r
    show "\<exists>rest1 s1. shutdown batches s = Some (rest1, s1) \<and>
         stop_commands s1 = stop_commands s + 1 \<and> xfers_in_progress s1 = 0 \<and>
         last (calls s1) = Command_send STOPFX3 0" by blast
  qed
  have g: "xfers_in_progress s = 0 \<and> in_flight s = {} \<and> unat (queuedepth s) < 2 ^ 31 \<and>
    Signal \<in> set evs \<and> {..<unat (queuedepth s)} \<subseteq> completed_slots post \<longrightarrow>
      (\<exists>rest1 s1. stream DITH RANDO rs (pre @ evs # post) s = Some (rest1, s1) \<and>
         stop_commands s1 = stop_commands s + 1 \<and> xfers_in_progress s1 = 0 \<and>
         last (calls s1) = Command_send STOPFX3 0)"
  proof
    assume h: "xfers_in_progress s = 0 \<and> in_flight s = {} \<and> unat (queuedepth s) < 2 ^ 31 \<and>
      Signal \<in> set evs \<and> {..<unat (queuedepth s)} \<subseteq> completed_slots post"
    then have h1: "xfers_in_progress s = 0" and h2: "in_flight s = {}"
      and h3: "unat (queuedepth s) < 2 ^ 31" and h4: "Signal \<in> set evs"
      and h5: "{..<unat (queuedepth s)} \<subseteq> completed_slots post" by simp_all
    from stream_terminates[OF h1 h2 h3 h4 h5, of DITH RANDO rs pre]
    obtain rest1 s1 where r: "stream DITH RANDO rs (pre @ evs # post) s = Some (rest1, s1)"
      by blast
    from stream_post[OF r] r
    show "\<exists>rest1 s1. stream DITH RANDO rs (pre @ evs # post) s = Some (rest1, s1) \<and>
         stop_commands s1 = stop_commands s + 1 \<and> xfers_in_progress s1 = 0 \<and>
         last (calls s1) = Command_send STOPFX3 0" by blast
  qed
  have i: "shutdown batches s = Some (rest, s') \<longrightarrow>
      stop_commands s' = stop_commands s + 1 \<and> xfers_in_progress s' = 0 \<and>
      last (calls s') = Command_send STOPFX3 0"
    by (rule impI) (rule stop_commands_shutdown)
  have j: "stream DITH RANDO rs batches s = Some (rest, s') \<longrightarrow>
      stop_commands s' = stop_commands s + 1 \<and> xfers_in_progress s' = 0 \<and>
      last (calls s') = Command_send STOPFX3 0"
    by (rule impI) (rule stream_post)
  show ?thesis by (intro conjI a b c d e f g i j)
qed

text \<open>
  A run on a pool of two slots: one idle pass of the main loop, the signal, then a drain of
  three passes, the first of which brings nothing and the other two one completion each.
\<close>

lemma stream_example:
  "\<exists>s'. stream 1 2 (\<lambda>_. 0)
      ([[]] @ [Signal] #
       [[],
        [Completion \<lparr>slot = 0, status = LIBUSB_TRANSFER_COMPLETED, actual_length = 2, buffer = [1, 2]\<rparr>
           (Written 2) 0],
        [Completion \<lparr>slot = 1, status = LIBUSB_TRANSFER_TIMED_OUT, actual_length = 0, buffer = [0, 0]\<rparr>
           (Written 0) 0]])
      (initial_state\<lparr>queuedepth := 2\<rparr>) = Some ([], s') \<and>
    stderr s' =
      [Abort_stopping_transfers, Test_complete, Transfers_pending 2, Transfers_pending 2,
       Transfers_pending 1, Transfer_callback_status LIBUSB_TRANSFER_TIMED_OUT 0,
       Transfers_completed]"
  by (simp add: stream_def shutdown_def configure_def Let_def command_send_def argument_send_def
      usleep_def called_def fprintf_stderr_def libusb_handle_events_def sig_stop_def
      submit_loop.simps[of _ "\<lambda>_. 0"] submit_slot_eq callback_eq initial_state_def wrap_int_def
      insert_Diff_if)

theorem shutdown_sequence_witness:
  "xfers_in_progress (initial_state\<lparr>queuedepth := 2\<rparr>) = 0 \<and>
   in_flight (initial_state\<lparr>queuedepth := 2\<rparr>) = {} \<and>
   unat (queuedepth (initial_state\<lparr>queuedepth := 2\<rparr>)) < 2 ^ 31 \<and>
   Signal \<in> set [Signal] \<and>
   {..<unat (queuedepth (initial_state\<lparr>queuedepth := 2\<rparr>))} \<subseteq>
     completed_slots
       [[],
        [Completion \<lparr>slot = 0, status = LIBUSB_TRANSFER_COMPLETED, actual_length = 2, buffer = [1, 2]\<rparr>
           (Written 2) 0],
        [Completion \<lparr>slot = 1, status = LIBUSB_TRANSFER_TIMED_OUT, actual_length = 0, buffer = [0, 0]\<rparr>
           (Written 0) 0]] \<and>
   (\<exists>s'. stream 1 2 (\<lambda>_. 0)
      ([[]] @ [Signal] #
       [[],
        [Completion \<lparr>slot = 0, status = LIBUSB_TRANSFER_COMPLETED, actual_length = 2, buffer = [1, 2]\<rparr>
           (Written 2) 0],
        [Completion \<lparr>slot = 1, status = LIBUSB_TRANSFER_TIMED_OUT, actual_length = 0, buffer = [0, 0]\<rparr>
           (Written 0) 0]])
      (initial_state\<lparr>queuedepth := 2\<rparr>) = Some ([], s') \<and>
    stop_commands s' = 1 \<and> xfers_in_progress s' = 0 \<and>
    last (calls s') = Command_send STOPFX3 0 \<and>
    stderr s' =
      [Abort_stopping_transfers, Test_complete, Transfers_pending 2, Transfers_pending 2,
       Transfers_pending 1, Transfer_callback_status LIBUSB_TRANSFER_TIMED_OUT 0,
       Transfers_completed])"
proof -
  let ?s = "initial_state\<lparr>queuedepth := 2\<rparr>"
  let ?post = "[[],
        [Completion \<lparr>slot = 0, status = LIBUSB_TRANSFER_COMPLETED, actual_length = 2, buffer = [1, 2]\<rparr>
           (Written 2) 0],
        [Completion \<lparr>slot = 1, status = LIBUSB_TRANSFER_TIMED_OUT, actual_length = 0, buffer = [0, 0]\<rparr>
           (Written 0) 0]]"
  have h1: "xfers_in_progress ?s = 0" and h2: "in_flight ?s = {}"
    and h3: "unat (queuedepth ?s) < 2 ^ 31" and h4: "Signal \<in> set [Signal]"
    by (simp_all add: initial_state_def)
  have h5: "{..<unat (queuedepth ?s)} \<subseteq> completed_slots ?post"
    by (auto simp add: completed_slots_def)
  have z: "stop_commands ?s = 0"
    by (simp add: stop_commands_def initial_state_def)
  from stream_example obtain s' where ex: "stream 1 2 (\<lambda>_. 0) ([[]] @ [Signal] # ?post) ?s = Some ([], s')"
    and er: "stderr s' =
      [Abort_stopping_transfers, Test_complete, Transfers_pending 2, Transfers_pending 2,
       Transfers_pending 1, Transfer_callback_status LIBUSB_TRANSFER_TIMED_OUT 0,
       Transfers_completed]" by blast
  from shutdown_sequence[where s = ?s and evs = "[Signal]" and post = ?post and pre = "[[]]"
      and DITH = 1 and RANDO = 2 and rs = "\<lambda>_. 0"] h1 h2 h3 h4 h5
  obtain rest1 s1 where r: "stream 1 2 (\<lambda>_. 0) ([[]] @ [Signal] # ?post) ?s = Some (rest1, s1)"
    and p: "stop_commands s1 = stop_commands ?s + 1" "xfers_in_progress s1 = 0"
      "last (calls s1) = Command_send STOPFX3 0"
    by blast
  from r ex have "s1 = s'" by simp
  then have "stop_commands s' = 1 \<and> xfers_in_progress s' = 0 \<and>
    last (calls s') = Command_send STOPFX3 0" using p z by simp
  then show ?thesis using h1 h2 h3 h4 h5 ex er by blast
qed

section \<open>Option parsing: proofs\<close>

subsection \<open>The gain byte\<close>

lemma small_int_bits:
  assumes "0 \<le> v" and "v \<le> 127" and "7 \<le> n"
  shows "\<not> bit (v :: int) n"
proof -
  have "take_bit 7 v = v" using assms(1,2) by (simp add: take_bit_int_eq_self)
  then have "bit v n = bit (take_bit 7 v) n" by simp
  then show ?thesis using assms(3) by (simp add: bit_take_bit_iff)
qed

lemma bit_0x80: "bit (0x80 :: u32) n = (n = 7)"
proof -
  have "(0x80 :: u32) = push_bit 7 1" by simp
  then show ?thesis
    by (simp only: bit_push_bit_iff) (auto simp: bit_1_iff)
qed

lemma bit_0x7f: "bit (0x7f :: u32) n = (n < 7)"
proof -
  have "(0x7f :: u32) = mask 7" by (simp add: mask_eq_exp_minus_1)
  then show ?thesis by (simp only: bit_mask_iff) auto
qed

lemma bit_and_not_u32: "bit ((g :: u32) AND NOT m) n = (bit g n \<and> \<not> bit m n)"
  by (auto simp: bit_and_iff bit_not_iff dest: bit_imp_le_length)

lemma bit_gain_high: "bit ((g :: u32) OR 0x80) n = (n = 7 \<or> bit g n)"
  unfolding bit_or_iff bit_0x80 by auto

lemma bit_gain_low: "bit ((g :: u32) AND NOT 0x80) n = (n \<noteq> 7 \<and> bit g n)"
  unfolding bit_and_not_u32 bit_0x80 by auto

lemma bit_gain_value:
  assumes "0 \<le> v" and "v \<le> 127"
  shows "bit (((g :: u32) AND NOT 0x7f) OR word_of_int v) n =
         (if n < 7 then bit v n else bit g n)"
proof (cases "n < 7")
  case True
  then show ?thesis
    unfolding bit_or_iff bit_and_not_u32 bit_0x7f bit_word_of_int_iff by simp
next
  case False
  then have "\<not> bit v n" using assms by (intro small_int_bits) simp_all
  then show ?thesis using False
    unfolding bit_or_iff bit_and_not_u32 bit_0x7f bit_word_of_int_iff by simp
qed

lemma switch_gainmode_high:
  "c = of_char CHR ''m'' \<Longrightarrow> option_switch strtol strtoul c (Some ''high'') s =
     Next_option (s\<lparr>gain := gain s OR 0x80\<rparr>)"
  by (simp add: option_switch_def)

lemma switch_gainmode_low:
  "c = of_char CHR ''m'' \<Longrightarrow> option_switch strtol strtoul c (Some ''low'') s =
     Next_option (s\<lparr>gain := gain s AND NOT 0x80\<rparr>)"
  by (simp add: option_switch_def)

lemma switch_gain:
  "c = of_char CHR ''g'' \<Longrightarrow> option_switch strtol strtoul c (Some a) s =
     (if wrap_int (strtol a) < 0 \<or> wrap_int (strtol a) > 127
      then Returned 0 (fprintf_stderr Help
             (fprintf_stderr (Invalid_gain_value (wrap_int (strtol a))) s))
      else Next_option (s\<lparr>gain := (gain s AND NOT 0x7f) OR word_of_int (wrap_int (strtol a))\<rparr>))"
  by (simp add: option_switch_def invalid_def Let_def)

lemma option_pass_short:
  "c \<noteq> 0 \<Longrightarrow> c \<noteq> - 1 \<Longrightarrow>
   option_pass strtol strtoul \<lparr>returned = c, option_index = i, optarg = arg\<rparr> s =
     option_switch strtol strtoul c arg s"
  by (simp add: option_pass_def getopt_long_def Let_def)

lemma gain_words_commute:
  assumes "0 \<le> v" and "v \<le> 127"
  shows "(((g :: u32) OR 0x80) AND NOT 0x7f) OR word_of_int v = ((g AND NOT 0x7f) OR word_of_int v) OR 0x80"
    and "((g AND NOT 0x80) AND NOT 0x7f) OR word_of_int v = ((g AND NOT 0x7f) OR word_of_int v) AND NOT 0x80"
proof -
  show "((g OR 0x80) AND NOT 0x7f) OR word_of_int v = ((g AND NOT 0x7f) OR word_of_int v) OR 0x80"
  proof (rule bit_word_eqI)
    fix n
    have "\<not> bit v 7" using assms by (intro small_int_bits) simp_all
    then show "bit (((g OR 0x80) AND NOT 0x7f) OR word_of_int v) n =
        bit (((g AND NOT 0x7f) OR word_of_int v) OR 0x80) n"
      unfolding bit_gain_high bit_gain_value[OF assms] by auto
  qed
  show "((g AND NOT 0x80) AND NOT 0x7f) OR word_of_int v = ((g AND NOT 0x7f) OR word_of_int v) AND NOT 0x80"
  proof (rule bit_word_eqI)
    fix n
    have "\<not> bit v 7" using assms by (intro small_int_bits) simp_all
    then show "bit (((g AND NOT 0x80) AND NOT 0x7f) OR word_of_int v) n =
        bit (((g AND NOT 0x7f) OR word_of_int v) AND NOT 0x80) n"
      unfolding bit_gain_low bit_gain_value[OF assms] by auto
  qed
qed

lemma gain_byte:
  assumes "0 \<le> v" and "v \<le> 127"
  shows "(0x80 AND NOT 0x7f) OR word_of_int v \<le> (0xFF :: u32)"
proof -
  let ?w = "((0x80 :: u32) AND NOT 0x7f) OR word_of_int v"
  have "?w AND 0xFF = ?w"
  proof (rule bit_word_eqI)
    fix n
    have m: "(0xFF :: u32) = mask 8" by (simp add: mask_eq_exp_minus_1)
    have "bit ?w n \<Longrightarrow> n < 8"
      unfolding bit_gain_value[OF assms] bit_0x80 by (auto split: if_splits)
    then show "bit (?w AND 0xFF) n = bit ?w n"
      unfolding bit_and_iff m bit_mask_iff by auto
  qed
  then have "?w = ?w AND 0xFF" by simp
  also have "\<dots> \<le> 0xFF" by (rule word_and_le1)
  finally show ?thesis .
qed

text \<open>
  \<^bold>\<open>C10.\<close> Gain mode and gain value share one byte, \<open>0x80\<close> at the start. Mode
  \<^verbatim>\<open>high\<close> sets bit 7, mode \<^verbatim>\<open>low\<close> clears it, and neither touches another bit. A gain value
  between 0 and 127 replaces bits 0 to 6 and touches no other bit. Mode and value may be
  given in either order with the same result, and the result fits a byte.
\<close>

theorem gain_byte_packing:
  assumes "0 \<le> wrap_int (strtol a)" and "wrap_int (strtol a) \<le> 127"
  shows "gain initial_state = 0x80 \<and>
    option_switch strtol strtoul (of_char CHR ''m'') (Some ''high'') s =
      Next_option (s\<lparr>gain := gain s OR 0x80\<rparr>) \<and>
    (\<forall>n. bit (gain s OR 0x80) n = (n = 7 \<or> bit (gain s) n)) \<and>
    option_switch strtol strtoul (of_char CHR ''m'') (Some ''low'') s =
      Next_option (s\<lparr>gain := gain s AND NOT 0x80\<rparr>) \<and>
    (\<forall>n. bit (gain s AND NOT 0x80) n = (n \<noteq> 7 \<and> bit (gain s) n)) \<and>
    option_switch strtol strtoul (of_char CHR ''g'') (Some a) s =
      Next_option (s\<lparr>gain := (gain s AND NOT 0x7f) OR word_of_int (wrap_int (strtol a))\<rparr>) \<and>
    (\<forall>n. bit ((gain s AND NOT 0x7f) OR word_of_int (wrap_int (strtol a))) n =
       (if n < 7 then bit (wrap_int (strtol a)) n else bit (gain s) n)) \<and>
    option_loop strtol strtoul
      [\<lparr>returned = of_char CHR ''m'', option_index = i, optarg = Some ''high''\<rparr>,
       \<lparr>returned = of_char CHR ''g'', option_index = j, optarg = Some a\<rparr>] s =
    option_loop strtol strtoul
      [\<lparr>returned = of_char CHR ''g'', option_index = j, optarg = Some a\<rparr>,
       \<lparr>returned = of_char CHR ''m'', option_index = i, optarg = Some ''high''\<rparr>] s \<and>
    option_loop strtol strtoul
      [\<lparr>returned = of_char CHR ''m'', option_index = i, optarg = Some ''low''\<rparr>,
       \<lparr>returned = of_char CHR ''g'', option_index = j, optarg = Some a\<rparr>] s =
    option_loop strtol strtoul
      [\<lparr>returned = of_char CHR ''g'', option_index = j, optarg = Some a\<rparr>,
       \<lparr>returned = of_char CHR ''m'', option_index = i, optarg = Some ''low''\<rparr>] s \<and>
    (gain initial_state AND NOT 0x7f) OR word_of_int (wrap_int (strtol a)) \<le> 0xFF"
proof -
  let ?v = "wrap_int (strtol a)"
  have a: "gain initial_state = 0x80" by (simp add: initial_state_def)
  have g: "option_switch strtol strtoul c (Some a) s' =
      Next_option (s'\<lparr>gain := (gain s' AND NOT 0x7f) OR word_of_int ?v\<rparr>)"
    if "c = of_char CHR ''g''" for s' c
  proof -
    have "\<not> (?v < 0 \<or> ?v > 127)" using assms by linarith
    then show ?thesis by (simp only: switch_gain[OF that] if_False)
  qed
  note g' = g[OF refl]
  note hi' = switch_gainmode_high[OF refl]
  note lo' = switch_gainmode_low[OF refl]
  have hi: "option_loop strtol strtoul
      [\<lparr>returned = of_char CHR ''m'', option_index = i, optarg = Some ''high''\<rparr>,
       \<lparr>returned = of_char CHR ''g'', option_index = j, optarg = Some a\<rparr>] s =
    option_loop strtol strtoul
      [\<lparr>returned = of_char CHR ''g'', option_index = j, optarg = Some a\<rparr>,
       \<lparr>returned = of_char CHR ''m'', option_index = i, optarg = Some ''high''\<rparr>] s"
    by (simp add: option_pass_short switch_gainmode_high g gain_words_commute(1)[OF assms, simplified])
  have lo: "option_loop strtol strtoul
      [\<lparr>returned = of_char CHR ''m'', option_index = i, optarg = Some ''low''\<rparr>,
       \<lparr>returned = of_char CHR ''g'', option_index = j, optarg = Some a\<rparr>] s =
    option_loop strtol strtoul
      [\<lparr>returned = of_char CHR ''g'', option_index = j, optarg = Some a\<rparr>,
       \<lparr>returned = of_char CHR ''m'', option_index = i, optarg = Some ''low''\<rparr>] s"
    by (simp add: option_pass_short switch_gainmode_low g gain_words_commute(2)[OF assms, simplified])
  have byte8: "(gain initial_state AND NOT 0x7f) OR word_of_int ?v \<le> 0xFF"
    unfolding a using assms by (rule gain_byte)
  show ?thesis
    by (intro conjI allI a hi' lo' g' bit_gain_high bit_gain_low
        bit_gain_value[OF assms] hi lo byte8)
qed

theorem gain_byte_packing_witness:
  "0 \<le> wrap_int 3 \<and> wrap_int 3 \<le> 127 \<and>
   option_loop (\<lambda>_. 3) (\<lambda>_. 0)
      [\<lparr>returned = of_char CHR ''g'', option_index = 0, optarg = Some ''3''\<rparr>,
       \<lparr>returned = of_char CHR ''m'', option_index = 0, optarg = Some ''low''\<rparr>] initial_state =
   option_loop (\<lambda>_. 3) (\<lambda>_. 0)
      [\<lparr>returned = of_char CHR ''m'', option_index = 0, optarg = Some ''low''\<rparr>,
       \<lparr>returned = of_char CHR ''g'', option_index = 0, optarg = Some ''3''\<rparr>] initial_state"
proof -
  have h: "0 \<le> wrap_int ((\<lambda>_. 3) ''3'')" "wrap_int ((\<lambda>_. 3) ''3'') \<le> 127"
    by (simp_all add: wrap_int_def)
  from gain_byte_packing[OF h, where strtoul = "\<lambda>_. 0" and s = initial_state and i = 0 and j = 0] h
  show ?thesis by simp
qed

subsection \<open>The range checks\<close>

lemma switch_samplerate:
  "c = of_char CHR ''s'' \<Longrightarrow> option_switch strtol strtoul c (Some a) s =
     (if (word_of_int (strtoul a) :: u32) < 1000000
      then Returned 0 (s\<lparr>samplerate := word_of_int (strtoul a),
             stderr := stderr s @ [Invalid_samplerate (word_of_int (strtoul a)), Help]\<rparr>)
      else Next_option (s\<lparr>samplerate := word_of_int (strtoul a)\<rparr>))"
  by (simp add: option_switch_def invalid_def Let_def fprintf_stderr_def)

lemma switch_att:
  "c = of_char CHR ''a'' \<Longrightarrow> option_switch strtol strtoul c (Some a) s =
     (if 63 < (word_of_int (strtol a) :: u32)
      then Returned 0 (s\<lparr>att := word_of_int (strtol a),
             stderr := stderr s @ [Invalid_attenuation_value (word_of_int (strtol a)), Help]\<rparr>)
      else Next_option (s\<lparr>att := word_of_int (strtol a)\<rparr>))"
  by (simp add: option_switch_def invalid_def Let_def fprintf_stderr_def)

lemma switch_queuedepth:
  "c = of_char CHR ''q'' \<Longrightarrow> option_switch strtol strtoul c (Some a) s =
     (if (word_of_int (strtol a) :: u32) < 1 \<or> 64 < (word_of_int (strtol a) :: u32)
      then Returned 0 (s\<lparr>queuedepth := word_of_int (strtol a),
             stderr := stderr s @ [Invalid_queue_depth (word_of_int (strtol a)), Help]\<rparr>)
      else Next_option (s\<lparr>queuedepth := word_of_int (strtol a)\<rparr>))"
  by (simp add: option_switch_def invalid_def Let_def fprintf_stderr_def)

lemma switch_reqsize:
  "c = of_char CHR ''p'' \<Longrightarrow> option_switch strtol strtoul c (Some a) s =
     (if (word_of_int (strtol a) :: u32) < 1 \<or> 64 < (word_of_int (strtol a) :: u32)
      then Returned 0 (s\<lparr>reqsize := word_of_int (strtol a),
             stderr := stderr s @ [Invalid_request_size (word_of_int (strtol a)), Help]\<rparr>)
      else Next_option (s\<lparr>reqsize := word_of_int (strtol a)\<rparr>))"
  by (simp add: option_switch_def invalid_def Let_def fprintf_stderr_def)

lemma switch_gainmode_other:
  "c = of_char CHR ''m'' \<Longrightarrow> a \<noteq> ''high'' \<Longrightarrow> a \<noteq> ''low'' \<Longrightarrow>
   option_switch strtol strtoul c (Some a) s =
     Returned 0 (s\<lparr>stderr := stderr s @ [Invalid_gain_mode a, Help]\<rparr>)"
  by (simp add: option_switch_def invalid_def Let_def fprintf_stderr_def)

lemma switch_gain_invalid:
  "c = of_char CHR ''g'' \<Longrightarrow> wrap_int (strtol a) < 0 \<or> 127 < wrap_int (strtol a) \<Longrightarrow>
   option_switch strtol strtoul c (Some a) s =
     Returned 0 (s\<lparr>stderr := stderr s @ [Invalid_gain_value (wrap_int (strtol a)), Help]\<rparr>)"
  by (simp add: switch_gain fprintf_stderr_def)

lemma flag_option_leaves_loop:
  "option_pass strtol strtoul \<lparr>returned = 0, option_index = 3, optarg = None\<rparr> s =
     Loop_left (s\<lparr>randomizer := of_char CHR ''r''\<rparr>)"
  by (simp add: option_pass_def getopt_long_def long_options_def Let_def)

text \<open>
  \<^bold>\<open>C9.\<close> The range checks sit in the \<^verbatim>\<open>switch\<close>, and a value out of range that reaches
  them makes \<^verbatim>\<open>main\<close> return 0 with a message (second equation below). They are not
  always reached. For the command line
  \<^verbatim>\<open>--rand -q 100\<close>, \<^verbatim>\<open>getopt_long\<close> answers 0 for \<^verbatim>\<open>--rand\<close>, whose \<open>flag\<close> is set; the \<^verbatim>\<open>break\<close>
  of line 229 is not inside the \<^verbatim>\<open>switch\<close> and leaves the \<^verbatim>\<open>while\<close> loop, so \<^verbatim>\<open>-q 100\<close> is
  never read: nothing is reported and \<^verbatim>\<open>main\<close> goes on with the default queue depth (first
  equation). And where \<^verbatim>\<open>long\<close> has 64 bits, \<^verbatim>\<open>-g 4294967301\<close> is cut to the \<^verbatim>\<open>int\<close> 5 before
  the check and is accepted (third equation). All that \<^verbatim>\<open>main\<close> does with the device stands
  under \<^verbatim>\<open>if (firmware)\<close> (line 361): after \<^verbatim>\<open>--rand -q 100\<close> alone \<open>firmware\<close> is still
  \<^verbatim>\<open>NULL\<close> and the program ends without touching the device, the value unreported; after
  \<^verbatim>\<open>-f fw.img --rand -q 100\<close> \<open>firmware\<close> is set and the device is opened and streamed from,
  with the default queue depth (fourth equation).
\<close>

theorem flag_option_ends_validation:
  "option_loop (\<lambda>_. 100) (\<lambda>_. 100)
     [\<lparr>returned = 0, option_index = 3, optarg = None\<rparr>,
      \<lparr>returned = of_char CHR ''q'', option_index = 0, optarg = Some ''100''\<rparr>]
     initial_state
   = Loop_left (initial_state\<lparr>randomizer := of_char CHR ''r''\<rparr>) \<and>
   option_loop (\<lambda>_. 100) (\<lambda>_. 100)
     [\<lparr>returned = of_char CHR ''q'', option_index = 0, optarg = Some ''100''\<rparr>]
     initial_state
   = Returned 0 (initial_state\<lparr>queuedepth := 100,
       stderr := [Invalid_queue_depth 100, Help]\<rparr>) \<and>
   option_loop (\<lambda>_. 4294967301) (\<lambda>_. 0)
     [\<lparr>returned = of_char CHR ''g'', option_index = 0, optarg = Some ''4294967301''\<rparr>]
     initial_state
   = Loop_left (initial_state\<lparr>gain := 0x85\<rparr>) \<and>
   option_loop (\<lambda>_. 100) (\<lambda>_. 100)
     [\<lparr>returned = of_char CHR ''f'', option_index = 0, optarg = Some ''fw.img''\<rparr>,
      \<lparr>returned = 0, option_index = 3, optarg = None\<rparr>,
      \<lparr>returned = of_char CHR ''q'', option_index = 0, optarg = Some ''100''\<rparr>]
     initial_state
   = Loop_left (initial_state\<lparr>firmware := Some ''fw.img'', randomizer := of_char CHR ''r''\<rparr>)"
proof -
  have a: "option_loop (\<lambda>_. 100) (\<lambda>_. 100)
     [\<lparr>returned = 0, option_index = 3, optarg = None\<rparr>,
      \<lparr>returned = of_char CHR ''q'', option_index = 0, optarg = Some ''100''\<rparr>]
     initial_state
   = Loop_left (initial_state\<lparr>randomizer := of_char CHR ''r''\<rparr>)"
    by (simp add: flag_option_leaves_loop)
  have b: "option_loop (\<lambda>_. 100) (\<lambda>_. 100)
     [\<lparr>returned = of_char CHR ''q'', option_index = 0, optarg = Some ''100''\<rparr>]
     initial_state
   = Returned 0 (initial_state\<lparr>queuedepth := 100,
       stderr := [Invalid_queue_depth 100, Help]\<rparr>)"
    by (simp add: option_pass_short switch_queuedepth initial_state_def)
  have "wrap_int 4294967301 = 5" by (simp add: wrap_int_def signed_take_bit_eq_take_bit_shift)
  then have c: "option_loop (\<lambda>_. 4294967301) (\<lambda>_. 0)
     [\<lparr>returned = of_char CHR ''g'', option_index = 0, optarg = Some ''4294967301''\<rparr>]
     initial_state
   = Loop_left (initial_state\<lparr>gain := 0x85\<rparr>)"
    by (simp add: option_pass_short switch_gain initial_state_def)
  have d: "option_loop (\<lambda>_. 100) (\<lambda>_. 100)
     [\<lparr>returned = of_char CHR ''f'', option_index = 0, optarg = Some ''fw.img''\<rparr>,
      \<lparr>returned = 0, option_index = 3, optarg = None\<rparr>,
      \<lparr>returned = of_char CHR ''q'', option_index = 0, optarg = Some ''100''\<rparr>]
     initial_state
   = Loop_left (initial_state\<lparr>firmware := Some ''fw.img'', randomizer := of_char CHR ''r''\<rparr>)"
    by (simp add: option_pass_short flag_option_leaves_loop option_switch_def)
  show ?thesis by (intro conjI a b c d)
qed

text \<open>
  What the checks of the \<^verbatim>\<open>switch\<close> do with a value out of range, as the 32-bit variable
  holds it: the message and the help text are printed, \<^verbatim>\<open>main\<close> returns 0, and no call
  has been made.
\<close>

theorem invalid_option_rejected:
  "((word_of_int (strtoul a) :: u32) < 1000000 \<longrightarrow>
      option_switch strtol strtoul (of_char CHR ''s'') (Some a) s =
        Returned 0 (s\<lparr>samplerate := word_of_int (strtoul a),
          stderr := stderr s @ [Invalid_samplerate (word_of_int (strtoul a)), Help]\<rparr>)) \<and>
   (wrap_int (strtol a) < 0 \<or> 127 < wrap_int (strtol a) \<longrightarrow>
      option_switch strtol strtoul (of_char CHR ''g'') (Some a) s =
        Returned 0 (s\<lparr>stderr := stderr s @ [Invalid_gain_value (wrap_int (strtol a)), Help]\<rparr>)) \<and>
   (63 < (word_of_int (strtol a) :: u32) \<longrightarrow>
      option_switch strtol strtoul (of_char CHR ''a'') (Some a) s =
        Returned 0 (s\<lparr>att := word_of_int (strtol a),
          stderr := stderr s @ [Invalid_attenuation_value (word_of_int (strtol a)), Help]\<rparr>)) \<and>
   ((word_of_int (strtol a) :: u32) < 1 \<or> 64 < (word_of_int (strtol a) :: u32) \<longrightarrow>
      option_switch strtol strtoul (of_char CHR ''q'') (Some a) s =
        Returned 0 (s\<lparr>queuedepth := word_of_int (strtol a),
          stderr := stderr s @ [Invalid_queue_depth (word_of_int (strtol a)), Help]\<rparr>)) \<and>
   ((word_of_int (strtol a) :: u32) < 1 \<or> 64 < (word_of_int (strtol a) :: u32) \<longrightarrow>
      option_switch strtol strtoul (of_char CHR ''p'') (Some a) s =
        Returned 0 (s\<lparr>reqsize := word_of_int (strtol a),
          stderr := stderr s @ [Invalid_request_size (word_of_int (strtol a)), Help]\<rparr>)) \<and>
   (a \<noteq> ''high'' \<and> a \<noteq> ''low'' \<longrightarrow>
      option_switch strtol strtoul (of_char CHR ''m'') (Some a) s =
        Returned 0 (s\<lparr>stderr := stderr s @ [Invalid_gain_mode a, Help]\<rparr>))"
proof (intro conjI impI)
  assume "(word_of_int (strtoul a) :: u32) < 1000000"
  then show "option_switch strtol strtoul (of_char CHR ''s'') (Some a) s =
        Returned 0 (s\<lparr>samplerate := word_of_int (strtoul a),
          stderr := stderr s @ [Invalid_samplerate (word_of_int (strtoul a)), Help]\<rparr>)"
    by (simp only: switch_samplerate[OF refl] if_True)
next
  assume "wrap_int (strtol a) < 0 \<or> 127 < wrap_int (strtol a)"
  then show "option_switch strtol strtoul (of_char CHR ''g'') (Some a) s =
        Returned 0 (s\<lparr>stderr := stderr s @ [Invalid_gain_value (wrap_int (strtol a)), Help]\<rparr>)"
    by (rule switch_gain_invalid[OF refl])
next
  assume "63 < (word_of_int (strtol a) :: u32)"
  then show "option_switch strtol strtoul (of_char CHR ''a'') (Some a) s =
        Returned 0 (s\<lparr>att := word_of_int (strtol a),
          stderr := stderr s @ [Invalid_attenuation_value (word_of_int (strtol a)), Help]\<rparr>)"
    by (simp only: switch_att[OF refl] if_True)
next
  assume "(word_of_int (strtol a) :: u32) < 1 \<or> 64 < (word_of_int (strtol a) :: u32)"
  then show "option_switch strtol strtoul (of_char CHR ''q'') (Some a) s =
        Returned 0 (s\<lparr>queuedepth := word_of_int (strtol a),
          stderr := stderr s @ [Invalid_queue_depth (word_of_int (strtol a)), Help]\<rparr>)"
    by (simp only: switch_queuedepth[OF refl] if_True)
next
  assume "(word_of_int (strtol a) :: u32) < 1 \<or> 64 < (word_of_int (strtol a) :: u32)"
  then show "option_switch strtol strtoul (of_char CHR ''p'') (Some a) s =
        Returned 0 (s\<lparr>reqsize := word_of_int (strtol a),
          stderr := stderr s @ [Invalid_request_size (word_of_int (strtol a)), Help]\<rparr>)"
    by (simp only: switch_reqsize[OF refl] if_True)
next
  assume "a \<noteq> ''high'' \<and> a \<noteq> ''low''"
  then have "a \<noteq> ''high''" and "a \<noteq> ''low''" by simp_all
  then show "option_switch strtol strtoul (of_char CHR ''m'') (Some a) s =
        Returned 0 (s\<lparr>stderr := stderr s @ [Invalid_gain_mode a, Help]\<rparr>)"
    by (rule switch_gainmode_other[OF refl])
qed

theorem invalid_option_rejected_witness:
  "(word_of_int 999999 :: u32) < 1000000 \<and>
   option_switch (\<lambda>_. 999999) (\<lambda>_. 999999) (of_char CHR ''s'') (Some ''999999'') initial_state =
     Returned 0 (initial_state\<lparr>samplerate := 999999,
       stderr := [Invalid_samplerate 999999, Help]\<rparr>) \<and>
   calls (initial_state\<lparr>samplerate := 999999,
       stderr := [Invalid_samplerate 999999, Help]\<rparr>) = []"
  using invalid_option_rejected[where strtol = "\<lambda>_. 999999" and strtoul = "\<lambda>_. 999999"
      and a = "''999999''" and s = initial_state]
  by (simp add: initial_state_def)

section \<open>The clock estimator: proofs\<close>

lemma frequency_loop_done: "1000000 \<le> f \<Longrightarrow> frequency_loop f = Some f"
  by (subst frequency_loop.simps) simp

lemma plan8: "clock_plan_of 27000000 8000000 =
   \<lparr>normalized = 8000000, divider = 112, pllFreq = 896000000, mult = 33,
    remainder_l = 5000000, num = 194180, denom = 1048575,
    actualPllFreq = 27000000 * (33 + 194180 / 1048575),
    actualAdcFreq = Finite (27000000 * (33 + 194180 / 1048575) / 112)\<rparr>"
  by (simp add: clock_plan_of_def double_to_uint32_def uint32_to_double_def double_div_def Let_def)

lemma frequency_loop_doubles:
  "(\<forall>j<k. f * 2 ^ j < 1000000) \<Longrightarrow> 1000000 \<le> f * 2 ^ k \<Longrightarrow>
   frequency_loop f = Some (f * 2 ^ k)"
proof (induction k arbitrary: f)
  case 0
  then show ?case by (simp add: frequency_loop_done)
next
  case (Suc k)
  have "f * 2 ^ 0 < 1000000" using Suc.prems(1) by blast
  then have lt: "f < 1000000" by simp
  have a: "\<forall>j<k. (f * 2) * 2 ^ j < 1000000"
  proof (intro allI impI)
    fix j assume "j < k"
    then have "Suc j < Suc k" by simp
    then have "f * 2 ^ Suc j < 1000000" using Suc.prems(1) by blast
    then show "(f * 2) * 2 ^ j < 1000000" by (simp add: mult.assoc)
  qed
  have b: "1000000 \<le> (f * 2) * 2 ^ k" using Suc.prems(2) by (simp add: mult.assoc)
  have "frequency_loop f = frequency_loop (f * 2)"
    using lt by (subst frequency_loop.simps) simp
  also have "\<dots> = Some ((f * 2) * 2 ^ k)" using a b by (rule Suc.IH)
  finally show ?case by (simp add: mult.assoc)
qed

lemma doublings_exist:
  assumes "0 < (n :: nat)"
  obtains k where "\<forall>j<k. n * 2 ^ j < 1000000" and "1000000 \<le> n * 2 ^ k"
proof -
  define k where "k = (LEAST k. 1000000 \<le> n * 2 ^ k)"
  have "(1000000 :: nat) \<le> 1 * 2 ^ 20" by simp
  also have "\<dots> \<le> n * 2 ^ 20" using assms by (intro mult_le_mono1) simp
  finally have ex: "1000000 \<le> n * 2 ^ 20" .
  then have "1000000 \<le> n * 2 ^ k" unfolding k_def by (rule LeastI)
  moreover have "\<forall>j<k. n * 2 ^ j < 1000000"
  proof (intro allI impI)
    fix j assume "j < k"
    then have "\<not> 1000000 \<le> n * 2 ^ j" unfolding k_def by (rule not_less_Least)
    then show "n * 2 ^ j < 1000000" by simp
  qed
  ultimately show ?thesis using that by blast
qed

lemma u32_unat_of_nat: "n < 4294967296 \<Longrightarrow> unat (of_nat n :: u32) = n"
  by (simp add: unat_of_nat)

lemma u8_unat_of_nat: "n < 256 \<Longrightarrow> unat (of_nat n :: byte) = n"
  by (simp add: unat_of_nat)

lemma u32_div_of_nat:
  assumes "a < 4294967296" and "b < 4294967296"
  shows "(of_nat a :: u32) div of_nat b = of_nat (a div b)"
proof -
  have "unat ((of_nat a :: u32) div of_nat b) = a div b"
    using assms by (simp add: unat_div u32_unat_of_nat)
  then have "of_nat (unat ((of_nat a :: u32) div of_nat b)) = (of_nat (a div b) :: u32)"
    by simp
  then show ?thesis by simp
qed

lemma u32_mod_of_nat:
  assumes "a < 4294967296" and "b < 4294967296"
  shows "(of_nat a :: u32) mod of_nat b = of_nat (a mod b)"
proof -
  have "unat ((of_nat a :: u32) mod of_nat b) = a mod b"
    using assms by (simp add: unat_mod u32_unat_of_nat)
  then have "of_nat (unat ((of_nat a :: u32) mod of_nat b)) = (of_nat (a mod b) :: u32)"
    by simp
  then show ?thesis by simp
qed

lemma double_to_uint32_quotient: "double_to_uint32 (real a / real b) = of_nat (a div b)"
  by (simp add: double_to_uint32_def floor_divide_of_nat_eq)

lemma double_to_uint32_nat: "double_to_uint32 (real a) = of_nat a"
  by (simp add: double_to_uint32_def)

lemma uint32_to_double_of_nat: "n < 4294967296 \<Longrightarrow> uint32_to_double (of_nat n) = real n"
  by (simp add: uint32_to_double_def u32_unat_of_nat)

lemma clock_plan_of_nat:
  fixes f X :: nat
  assumes f: "1000000 \<le> f" and X: "X = 27000000 \<or> X = 10000000"
  defines "D0 \<equiv> 900000000 div f"
  defines "D \<equiv> (if odd D0 then D0 - 1 else D0)"
  defines "P \<equiv> D * f"
  defines "M \<equiv> P div X"
  defines "L \<equiv> P mod X"
  defines "N \<equiv> (L * 1048575) div X"
  shows "clock_plan_of (of_nat X) (real f) =
      \<lparr>normalized = real f, divider = of_nat D, pllFreq = of_nat P, mult = of_nat M,
       remainder_l = of_nat L, num = of_nat N, denom = 1048575,
       actualPllFreq = real X * (real M + real N / 1048575),
       actualAdcFreq =
         (if D = 0 then Not_a_number
          else Finite (real X * (real M + real N / 1048575) / real D))\<rparr>"
    and "D \<le> 900" and "P \<le> 900000000" and "M \<le> 90" and "N < 1048575"
proof -
  have Xpos: "0 < X" and Xlo: "10000000 \<le> X" and Xhi: "X < 4294967296"
    using X by auto
  have "D0 \<le> 900000000 div 1000000"
    unfolding D0_def using f by (intro div_le_mono2) simp_all
  then have D0: "D0 \<le> 900" by simp
  have DD0: "D \<le> D0" by (simp add: D_def)
  then show D900: "D \<le> 900" using D0 by simp
  have "D0 * f \<le> 900000000" unfolding D0_def by (rule div_times_less_eq_dividend)
  moreover have "D * f \<le> D0 * f" using DD0 by (rule mult_le_mono1)
  ultimately show P9: "P \<le> 900000000" unfolding P_def by (rule order_trans[rotated])
  have "M \<le> 900000000 div X" unfolding M_def using P9 by (rule div_le_mono)
  also have "\<dots> \<le> 900000000 div 10000000" using Xlo by (intro div_le_mono2) simp_all
  finally show M90: "M \<le> 90" by simp
  have LX: "L < X" unfolding L_def using Xpos by simp
  then have "L * 1048575 < 1048575 * X" by simp
  then show N20: "N < 1048575" unfolding N_def by (rule less_mult_imp_div_less)
  have e1: "double_to_uint32 (900000000 / real f) = of_nat D0"
    using double_to_uint32_quotient[of 900000000 f] by (simp add: D0_def)
  have m2: "(of_nat D0 :: u32) mod 2 = of_nat (D0 mod 2)"
    using u32_mod_of_nat[of D0 2] D0 by simp
  have e2: "(if (of_nat D0 :: u32) mod 2 \<noteq> 0 then of_nat D0 - 1 else of_nat D0) = (of_nat D :: u32)"
  proof (cases "odd D0")
    case True
    then have r: "D0 mod 2 = 1" by presburger
    obtain m where m: "D0 = Suc m" using True by (cases D0) simp_all
    have d: "(of_nat D0 :: u32) - 1 = of_nat (D0 - 1)" unfolding m by simp
    have "(of_nat D0 :: u32) mod 2 \<noteq> 0" unfolding m2 r by simp
    then show ?thesis using True d by (simp add: D_def)
  next
    case False
    then have r: "D0 mod 2 = 0" by presburger
    have "(of_nat D0 :: u32) mod 2 = 0" unfolding m2 r by simp
    then show ?thesis using False by (simp add: D_def)
  qed
  have e3: "uint32_to_double (of_nat D) = real D"
    using D900 by (intro uint32_to_double_of_nat) simp
  have e4: "double_to_uint32 (real D * real f) = of_nat P"
    using double_to_uint32_nat[of "D * f"] by (simp add: P_def)
  have e5: "(of_nat P :: u32) div of_nat X = of_nat M"
    unfolding M_def using P9 Xhi by (intro u32_div_of_nat) simp_all
  have e6: "(ucast (of_nat M :: u32) :: byte) = of_nat M"
    using M90 by (simp add: unsigned_of_nat take_bit_nat_eq_self)
  have e7: "(of_nat P :: u32) mod of_nat X = of_nat L"
    unfolding L_def using P9 Xhi by (intro u32_mod_of_nat) simp_all
  have e8: "uint32_to_double (of_nat L) = real L"
    using LX Xhi by (intro uint32_to_double_of_nat) simp
  have e8b: "uint32_to_double (of_nat X) = real X"
    using Xhi by (rule uint32_to_double_of_nat)
  have e9: "double_to_uint32 (real L * 1048575 / real X) = of_nat N"
    using double_to_uint32_quotient[of "L * 1048575" X] by (simp add: N_def)
  have e10: "uint32_to_double (of_nat N) = real N"
    using N20 by (intro uint32_to_double_of_nat) simp
  have e10b: "uint32_to_double 1048575 = 1048575"
    by (simp add: uint32_to_double_def)
  have e11: "real (unat (of_nat M :: byte)) = real M"
    using M90 by (simp add: u8_unat_of_nat)
  have e12: "double_div (real X * (real M + real N / 1048575)) (real D) =
      (if D = 0 then Not_a_number
       else Finite (real X * (real M + real N / 1048575) / real D))"
  proof (cases "D = 0")
    case True
    then have "M = 0" and "N = 0" by (simp_all add: P_def M_def L_def N_def)
    then show ?thesis using True by (simp add: double_div_def)
  next
    case False
    then show ?thesis by (simp add: double_div_def)
  qed
  show "clock_plan_of (of_nat X) (real f) =
      \<lparr>normalized = real f, divider = of_nat D, pllFreq = of_nat P, mult = of_nat M,
       remainder_l = of_nat L, num = of_nat N, denom = 1048575,
       actualPllFreq = real X * (real M + real N / 1048575),
       actualAdcFreq =
         (if D = 0 then Not_a_number
          else Finite (real X * (real M + real N / 1048575) / real D))\<rparr>"
    by (simp only: clock_plan_of_def Let_def e1 e2 e3 e4 e5 e6 e7 e8 e8b e9 e10 e10b e11 e12)
qed

text \<open>
  The loop of lines 158 to 160 ends only on a positive frequency: zero and negative
  values stay below 1,000,000 however often they are doubled.
\<close>

lemma frequency_loop_positive:
  assumes "frequency_loop f = Some y"
  shows "0 < f"
proof (rule frequency_loop.raw_induct[where P = "\<lambda>x y. 0 < x", OF _ assms])
  fix loop :: "real \<Rightarrow> real option" and x y :: real
  assume ih: "\<And>x y. loop x = Some y \<Longrightarrow> 0 < x"
    and eq: "(if x < 1000000 then loop (x * 2) else Some x) = Some y"
  show "0 < x"
  proof (cases "x < 1000000")
    case True
    then have "loop (x * 2) = Some y" using eq by simp
    then have "0 < x * 2" by (rule ih)
    then show ?thesis by simp
  next
    case False
    then show ?thesis by simp
  qed
qed

lemma frequency_loop_never_ends: "f \<le> 0 \<Longrightarrow> frequency_loop f = None"
proof (cases "frequency_loop f")
  case None
  then show ?thesis .
next
  case (Some y)
  assume "f \<le> 0"
  moreover have "0 < f" using Some by (rule frequency_loop_positive)
  ultimately show ?thesis by simp
qed

text \<open>
  \<^bold>\<open>C6\<close>, as the code has it. For a requested rate of \<open>n > 0\<close> whole hertz and a
  crystal of 27 or 10 MHz: \<open>f\<close> is \<open>n\<close> doubled while below 1,000,000 (\<open>k\<close> times); the
  divider \<open>D\<close> is \<open>900,000,000 div f\<close>, less one if odd; \<open>P = D f\<close>; \<open>M = P div X\<close>;
  \<open>L = P mod X\<close>; the numerator \<open>N\<close> is \<open>L 1,048,575 / X\<close> truncated, not rounded; the
  denominator is 1,048,575; and the function returns \<open>X (M + N / 1,048,575) / D\<close>, which is
  not a number when \<open>D = 0\<close>. None of the 32-bit and 8-bit variables wraps. The two
  frequencies returned are the exact values of these expressions; the \<^verbatim>\<open>double\<close> arithmetic of
  the code rounds them. For a frequency of zero or below the loop never ends, and the
  function does not return.
\<close>

theorem clock_estimator:
  fixes n X :: nat and g :: real
  assumes "0 < n" and "X = 27000000 \<or> X = 10000000"
  shows "(\<exists>k. (\<forall>j<k. n * 2 ^ j < 1000000) \<and> 1000000 \<le> n * 2 ^ k \<and>
    (let f = n * 2 ^ k;
         D0 = 900000000 div f;
         D = (if odd D0 then D0 - 1 else D0);
         P = D * f;
         M = P div X;
         L = P mod X;
         N = (L * 1048575) div X
     in actual_freq (of_nat X) (real n) =
          Some \<lparr>normalized = real f, divider = of_nat D, pllFreq = of_nat P, mult = of_nat M,
            remainder_l = of_nat L, num = of_nat N, denom = 1048575,
            actualPllFreq = real X * (real M + real N / 1048575),
            actualAdcFreq =
              (if D = 0 then Not_a_number
               else Finite (real X * (real M + real N / 1048575) / real D))\<rparr> \<and>
        D \<le> 900 \<and> P \<le> 900000000 \<and> M \<le> 90 \<and> N < 1048575)) \<and>
    (g \<le> 0 \<longrightarrow> frequency_loop g = None \<and> actual_freq (of_nat X) g = None)"
proof -
  from assms(1) obtain k where lo: "\<forall>j<k. n * 2 ^ j < 1000000" and hi: "1000000 \<le> n * 2 ^ k"
    by (rule doublings_exist)
  have "\<forall>j<k. real n * 2 ^ j < 1000000"
  proof (intro allI impI)
    fix j assume "j < k"
    then have "n * 2 ^ j < 1000000" using lo by blast
    then have "real (n * 2 ^ j) < real 1000000" by (simp only: of_nat_less_iff)
    then show "real n * 2 ^ j < 1000000" by simp
  qed
  moreover have "1000000 \<le> real n * 2 ^ k"
  proof -
    have "real 1000000 \<le> real (n * 2 ^ k)" using hi by (simp only: of_nat_le_iff)
    then show ?thesis by simp
  qed
  ultimately have "frequency_loop (real n) = Some (real n * 2 ^ k)"
    by (rule frequency_loop_doubles)
  then have fl: "frequency_loop (real n) = Some (real (n * 2 ^ k))" by simp
  note plan = clock_plan_of_nat[OF hi assms(2)]
  have "actual_freq (of_nat X) (real n) = Some (clock_plan_of (of_nat X) (real (n * 2 ^ k)))"
    by (simp only: actual_freq_def fl option.map)
  then have pos: "\<exists>k. (\<forall>j<k. n * 2 ^ j < 1000000) \<and> 1000000 \<le> n * 2 ^ k \<and>
    (let f = n * 2 ^ k;
         D0 = 900000000 div f;
         D = (if odd D0 then D0 - 1 else D0);
         P = D * f;
         M = P div X;
         L = P mod X;
         N = (L * 1048575) div X
     in actual_freq (of_nat X) (real n) =
          Some \<lparr>normalized = real f, divider = of_nat D, pllFreq = of_nat P, mult = of_nat M,
            remainder_l = of_nat L, num = of_nat N, denom = 1048575,
            actualPllFreq = real X * (real M + real N / 1048575),
            actualAdcFreq =
              (if D = 0 then Not_a_number
               else Finite (real X * (real M + real N / 1048575) / real D))\<rparr> \<and>
        D \<le> 900 \<and> P \<le> 900000000 \<and> M \<le> 90 \<and> N < 1048575)"
    using lo hi plan by (intro exI[of _ k]) (simp only: Let_def simp_thms)
  have neg: "g \<le> 0 \<longrightarrow> frequency_loop g = None \<and> actual_freq (of_nat X) g = None"
  proof
    assume "g \<le> 0"
    then have "frequency_loop g = None" by (rule frequency_loop_never_ends)
    then show "frequency_loop g = None \<and> actual_freq (of_nat X) g = None"
      by (simp add: actual_freq_def)
  qed
  show ?thesis using pos neg by (rule conjI)
qed

theorem clock_estimator_witness:
  "0 < (8000000 :: nat) \<and> ((27000000 :: nat) = 27000000 \<or> (27000000 :: nat) = 10000000) \<and>
   map_option num (actual_freq 27000000 8000000) = Some 194180 \<and>
   map_option divider (actual_freq 27000000 8000000) = Some 112 \<and>
   (0 :: real) \<le> 0 \<and> frequency_loop 0 = None \<and> actual_freq 27000000 0 = None"
proof -
  have h1: "0 < (8000000 :: nat)" and h2: "(27000000 :: nat) = 27000000 \<or> (27000000 :: nat) = 10000000"
    by simp_all
  note ce = clock_estimator[OF h1 h2, where g = 0]
  from ce[THEN conjunct2] have c: "frequency_loop 0 = None \<and> actual_freq 27000000 0 = None"
    by simp
  from ce[THEN conjunct1] obtain k where
    a: "\<forall>j<k. 8000000 * 2 ^ j < (1000000 :: nat)" and
    b: "let f = 8000000 * 2 ^ k;
         D0 = 900000000 div f;
         D = (if odd D0 then D0 - 1 else D0);
         P = D * f;
         M = P div 27000000;
         L = P mod 27000000;
         N = (L * 1048575) div 27000000
     in actual_freq (of_nat 27000000) (real 8000000) =
          Some \<lparr>normalized = real f, divider = of_nat D, pllFreq = of_nat P, mult = of_nat M,
            remainder_l = of_nat L, num = of_nat N, denom = 1048575,
            actualPllFreq = real 27000000 * (real M + real N / 1048575),
            actualAdcFreq =
              (if D = 0 then Not_a_number
               else Finite (real 27000000 * (real M + real N / 1048575) / real D))\<rparr> \<and>
        D \<le> 900 \<and> P \<le> 900000000 \<and> M \<le> 90 \<and> N < 1048575"
    by blast
  have "k = 0"
  proof (rule ccontr)
    assume "k \<noteq> 0"
    then have "0 < k" by simp
    then have "8000000 * 2 ^ 0 < (1000000 :: nat)" using a by blast
    then show False by simp
  qed
  then show ?thesis using b c by (simp add: Let_def)
qed

text \<open>
  At 8 MHz and 27 MHz the remainder is 5,000,000 and \<open>5,000,000 \<times> 1,048,575 / 27,000,000\<close> is
  194,180.55...: rounding gives 194,181, the code computes 194,180.
\<close>

theorem rounding_counterexample:
  "map_option remainder_l (actual_freq 27000000 8000000) = Some 5000000 \<and>
   map_option num (actual_freq 27000000 8000000) = Some 194180 \<and>
   round (5000000 * 1048575 / 27000000 :: real) = 194181"
  by (simp add: actual_freq_def frequency_loop_done plan8 round_def)

text \<open>
  \<^bold>\<open>C7.\<close> Requested rate 8,000,000 Hz, crystal 27,000,000 Hz: the loop leaves the
  frequency as it is, the divider is 112, the PLL frequency 896,000,000, and the
  frequency returned is within a quarter of a hertz of 8,000,000.
\<close>

theorem clock_estimator_8MHz:
  "frequency_loop 8000000 = Some 8000000 \<and>
   actual_freq 27000000 8000000 =
     Some \<lparr>normalized = 8000000, divider = 112, pllFreq = 896000000, mult = 33,
       remainder_l = 5000000, num = 194180, denom = 1048575,
       actualPllFreq = 27000000 * (33 + 194180 / 1048575),
       actualAdcFreq = Finite (27000000 * (33 + 194180 / 1048575) / 112)\<rparr> \<and>
   \<bar>27000000 * (33 + 194180 / 1048575) / 112 - 8000000\<bar> < (1 / 4 :: real)"
proof -
  have a: "frequency_loop 8000000 = Some 8000000" by (rule frequency_loop_done) simp
  have b: "actual_freq 27000000 8000000 =
     Some \<lparr>normalized = 8000000, divider = 112, pllFreq = 896000000, mult = 33,
       remainder_l = 5000000, num = 194180, denom = 1048575,
       actualPllFreq = 27000000 * (33 + 194180 / 1048575),
       actualAdcFreq = Finite (27000000 * (33 + 194180 / 1048575) / 112)\<rparr>"
    by (simp only: actual_freq_def a option.map plan8)
  have c: "\<bar>27000000 * (33 + 194180 / 1048575) / 112 - 8000000\<bar> < (1 / 4 :: real)"
    by simp
  show ?thesis by (intro conjI a b c)
qed

end
